theory Spec2Isabelle
  imports Main "HOL-Library.Word"
begin

section \<open>Errors\<close>

text \<open>
  Every way the modelled code can stop without a result: a thrown \<^verbatim>\<open>FbossError\<close> with its
  message, a failed \<^verbatim>\<open>CHECK\<close>, \<^verbatim>\<open>std::optional::value()\<close> on an empty optional, and the
  dereference of a null pointer.
  \<^verbatim>\<open>DCHECK\<close>s are compiled out of release builds and hold at every call site of the
  modelled code, so they are recorded in comments only.
\<close>

datatype error = FbossError string | CheckFailed | BadOptionalAccess | NullPointer

section \<open>Neighbor cache entry (fboss/agent/NeighborCacheEntry.h)\<close>

datatype NeighborEntryState =
  UNINITIALIZED | INCOMPLETE | DELAY | PROBE | STALE | REACHABLE | EXPIRED

text \<open>
  \<^verbatim>\<open>NeighborEntryFields\<close> (state/NeighborEntry.h) is declared outside the sources at hand; the
  entry only stores it and reads \<^verbatim>\<open>ip\<close> from it.
\<close>

record 'ip NeighborEntryFields =
  ip :: 'ip
  mac :: "48 word"
  port :: nat
  interfaceID :: nat
  pending :: bool

text \<open>
  What an entry asks of its \<^verbatim>\<open>cache_\<close>: three configuration getters and the hardware hit
  bit. \<^verbatim>\<open>NeighborCache\<close> is not among the sources, so its answers are parameters. Timeouts
  are \<^verbatim>\<open>std::chrono::seconds\<close> counts.
\<close>

record 'ip Cache =
  getMaxNeighborProbes :: "32 word"
  getStaleEntryInterval :: int
  getBaseTimeout :: int
  isHit :: "'ip \<Rightarrow> bool"

text \<open>
  The entry. \<open>timeout\<close> is the \<^verbatim>\<open>folly::AsyncTimeout\<close> base object: \<open>None\<close> when no timeout
  is scheduled, \<open>Some ms\<close> when one is, with its duration in milliseconds (an
  \<^verbatim>\<open>AsyncTimeout\<close> holds at most one). \<open>queued\<close> counts the \<^verbatim>\<open>scheduleNextUpdate\<close> closures
  that \<^verbatim>\<open>enter\<close> handed to \<^verbatim>\<open>evb_->runInEventBaseThread\<close> and that the event base has not
  run yet. \<open>probed\<close> logs the calls of \<^verbatim>\<open>cache_->probeFor\<close>.
\<close>

record 'ip NeighborCacheEntry =
  m_fields :: "'ip NeighborEntryFields"
  m_state :: NeighborEntryState
  m_probesLeft :: "8 word"
  timeout :: "int option"
  queued :: nat
  probed :: "'ip list"

definition getIP :: "'ip NeighborCacheEntry \<Rightarrow> 'ip" where
  "getIP e = ip (m_fields e)"

definition getState :: "'ip NeighborCacheEntry \<Rightarrow> NeighborEntryState" where
  "getState e = m_state e"

definition isScheduled :: "'ip NeighborCacheEntry \<Rightarrow> bool" where
  "isScheduled e = (timeout e \<noteq> None)"

definition scheduleTimeout :: "int \<Rightarrow> 'ip NeighborCacheEntry \<Rightarrow> 'ip NeighborCacheEntry" where
  "scheduleTimeout ms e = e\<lparr>timeout := Some ms\<rparr>"

definition isProbing :: "'ip NeighborCacheEntry \<Rightarrow> bool" where
  "isProbing e = (m_state e = PROBE \<or> m_state e = INCOMPLETE)"

definition hasProbesLeft :: "'ip NeighborCacheEntry \<Rightarrow> bool" where
  "hasProbesLeft e = (0 < m_probesLeft e)"

text \<open>
  Arithmetic on \<^verbatim>\<open>int64_t\<close>: a result outside the 64 bits wraps around, and division rounds
  towards zero.
\<close>

definition int64 :: "int \<Rightarrow> int" where
  "int64 x = (x + 2 ^ 63) mod 2 ^ 64 - 2 ^ 63"

definition int64_div :: "int \<Rightarrow> int \<Rightarrow> int" where
  "int64_div a b = (if (a < 0) = (b < 0) then \<bar>a\<bar> div \<bar>b\<bar> else - (\<bar>a\<bar> div \<bar>b\<bar>))"

text \<open>
  \<^verbatim>\<open>calculateLifetime\<close>. \<^verbatim>\<open>getBaseTimeout().count()\<close> is a 64-bit count of seconds, and so are
  \<^verbatim>\<open>base\<close>, its thousandfold, and \<^verbatim>\<open>lifetime\<close>. \<open>rand32\<close> stands for
  \<^verbatim>\<open>folly::Random::rand32\<close>: it is given the bound, \<^verbatim>\<open>base\<close> converted to \<^verbatim>\<open>uint32_t\<close>, and
  answers with the draw, which is widened to 64 bits for the sum.
\<close>

definition calculateLifetime :: "'ip Cache \<Rightarrow> (32 word \<Rightarrow> 32 word) \<Rightarrow> int" where
  "calculateLifetime c rand32 =
     (let base = int64 (getBaseTimeout c * 1000);
          lifetime = int64 (uint (rand32 (word_of_int base)) + int64_div base 2)
      in lifetime)"

definition scheduleNextUpdate ::
  "'ip Cache \<Rightarrow> (32 word \<Rightarrow> 32 word) \<Rightarrow> 'ip NeighborCacheEntry \<Rightarrow> error + 'ip NeighborCacheEntry" where
  "scheduleNextUpdate c rand32 e =
     (case m_state e of
        REACHABLE \<Rightarrow> Inr (scheduleTimeout (calculateLifetime c rand32) e)
      | STALE \<Rightarrow> Inr (scheduleTimeout (1000 * getStaleEntryInterval c) e)
      | PROBE \<Rightarrow> Inr (scheduleTimeout 1000 e)
      | INCOMPLETE \<Rightarrow> Inr (scheduleTimeout 1000 e)
      | EXPIRED \<Rightarrow> Inr e
      | DELAY \<Rightarrow> Inl (FbossError ''Invalid change of cache entry state.'')
      | UNINITIALIZED \<Rightarrow> Inl (FbossError ''Invalid change of cache entry state.''))"

text \<open>\<^verbatim>\<open>probeIfProbesLeft\<close>; its \<^verbatim>\<open>DCHECK(isProbing())\<close> holds at both call sites.\<close>

definition probeIfProbesLeft :: "'ip NeighborCacheEntry \<Rightarrow> 'ip NeighborCacheEntry" where
  "probeIfProbesLeft e =
     (if hasProbesLeft e
      then e\<lparr>m_probesLeft := m_probesLeft e - 1, probed := probed e @ [getIP e]\<rparr>
      else e\<lparr>m_state := EXPIRED\<rparr>)"

definition probeStaleEntryIfHit :: "'ip Cache \<Rightarrow> 'ip NeighborCacheEntry \<Rightarrow> 'ip NeighborCacheEntry" where
  "probeStaleEntryIfHit c e =
     (if isHit c (getIP e) then probeIfProbesLeft (e\<lparr>m_state := PROBE\<rparr>) else e)"

definition runStateMachine ::
  "'ip Cache \<Rightarrow> 'ip NeighborCacheEntry \<Rightarrow> error + 'ip NeighborCacheEntry" where
  "runStateMachine c e =
     (case m_state e of
        INCOMPLETE \<Rightarrow> Inr (probeIfProbesLeft e)
      | PROBE \<Rightarrow> Inr (probeIfProbesLeft e)
      | STALE \<Rightarrow> Inr (probeStaleEntryIfHit c e)
      | REACHABLE \<Rightarrow> Inr (probeStaleEntryIfHit c (e\<lparr>m_state := STALE\<rparr>))
      | EXPIRED \<Rightarrow> Inl (FbossError ''Found NeighborCacheEntry with invalid state'')
      | DELAY \<Rightarrow> Inl (FbossError ''Found NeighborCacheEntry with invalid state'')
      | UNINITIALIZED \<Rightarrow> Inl (FbossError ''Found NeighborCacheEntry with invalid state''))"

text \<open>
  \<^verbatim>\<open>process\<close>. Its \<^verbatim>\<open>CHECK\<close>, like the one of \<^verbatim>\<open>scheduleNextUpdate\<close>, is on the calling
  thread, which the model does not have: every operation here runs on the event base's
  thread.
\<close>

definition process ::
  "'ip Cache \<Rightarrow> (32 word \<Rightarrow> 32 word) \<Rightarrow> 'ip NeighborCacheEntry \<Rightarrow> error + 'ip NeighborCacheEntry" where
  "process c rand32 e =
     (if isScheduled e then Inr e
      else case runStateMachine c e of
             Inl err \<Rightarrow> Inl err
           | Inr e' \<Rightarrow> if m_state e' \<noteq> EXPIRED then scheduleNextUpdate c rand32 e' else Inr e')"

text \<open>
  \<^verbatim>\<open>enter\<close>: writes \<^verbatim>\<open>state_\<close>, sets the probe budget (the 32-bit value is narrowed to the
  8-bit \<^verbatim>\<open>probesLeft_\<close>), for \<^verbatim>\<open>STALE\<close> runs the state machine at once, and finally queues
  \<^verbatim>\<open>scheduleNextUpdate\<close> on the event base, which runs it in a later turn of its loop. A
  throw leaves the function before the closure is queued; the model ends there and does
  not follow the entry that the throw leaves behind.
\<close>

definition runInEventBaseThread :: "'ip NeighborCacheEntry \<Rightarrow> 'ip NeighborCacheEntry" where
  "runInEventBaseThread e = e\<lparr>queued := queued e + 1\<rparr>"

definition enter ::
  "'ip Cache \<Rightarrow> NeighborEntryState \<Rightarrow> 'ip NeighborCacheEntry \<Rightarrow> error + 'ip NeighborCacheEntry" where
  "enter c state e =
     (let e1 = e\<lparr>m_state := state\<rparr> in
      case state of
        INCOMPLETE \<Rightarrow>
          Inr (runInEventBaseThread (e1\<lparr>m_probesLeft := ucast (getMaxNeighborProbes c - 1)\<rparr>))
      | REACHABLE \<Rightarrow>
          Inr (runInEventBaseThread (e1\<lparr>m_probesLeft := ucast (getMaxNeighborProbes c)\<rparr>))
      | STALE \<Rightarrow>
          (case runStateMachine c (e1\<lparr>m_probesLeft := ucast (getMaxNeighborProbes c)\<rparr>) of
             Inl err \<Rightarrow> Inl err
           | Inr e2 \<Rightarrow> Inr (runInEventBaseThread e2))
      | PROBE \<Rightarrow> Inl (FbossError ''Tried to create entry with invalid state'')
      | DELAY \<Rightarrow> Inl (FbossError ''Tried to create entry with invalid state'')
      | UNINITIALIZED \<Rightarrow> Inl (FbossError ''Tried to create entry with invalid state'')
      | EXPIRED \<Rightarrow> Inl (FbossError ''Tried to create entry with invalid state''))"

text \<open>
  The constructor: the member initialisers (\<^verbatim>\<open>state_\<close> starts \<^verbatim>\<open>UNINITIALIZED\<close>,
  \<^verbatim>\<open>probesLeft_\<close> starts at the probe budget, no timeout, nothing queued), then
  \<^verbatim>\<open>enter(state)\<close>. A throw means no entry is constructed.
\<close>

definition newNeighborCacheEntry ::
  "'ip NeighborEntryFields \<Rightarrow> 'ip Cache \<Rightarrow> NeighborEntryState \<Rightarrow> error + 'ip NeighborCacheEntry" where
  "newNeighborCacheEntry entryFields c state =
     enter c state
       \<lparr>m_fields = entryFields, m_state = UNINITIALIZED,
        m_probesLeft = ucast (getMaxNeighborProbes c),
        timeout = None, queued = 0, probed = []\<rparr>"

definition updateState ::
  "'ip Cache \<Rightarrow> NeighborEntryState \<Rightarrow> 'ip NeighborCacheEntry \<Rightarrow> error + 'ip NeighborCacheEntry" where
  "updateState c state e = enter c state e"

definition setPending :: "'ip Cache \<Rightarrow> 'ip NeighborCacheEntry \<Rightarrow> error + 'ip NeighborCacheEntry" where
  "setPending c e = enter c STALE e"

text \<open>
  The two ways the event base calls back into an entry.
  \<^item> \<open>timeoutExpired\<close>: the scheduled timeout fires (so it is no longer scheduled) and
    \<^verbatim>\<open>timeoutExpired()\<close> has the cache call \<^verbatim>\<open>process()\<close> on the entry. Without a scheduled
    timeout nothing fires.
  \<^item> \<open>runQueued\<close>: the event base runs one closure queued by \<^verbatim>\<open>enter\<close>, that is
    \<^verbatim>\<open>scheduleNextUpdate()\<close>.
\<close>

definition timeoutExpired ::
  "'ip Cache \<Rightarrow> (32 word \<Rightarrow> 32 word) \<Rightarrow> 'ip NeighborCacheEntry \<Rightarrow> error + 'ip NeighborCacheEntry" where
  "timeoutExpired c rand32 e =
     (case timeout e of
        None \<Rightarrow> Inr e
      | Some ms \<Rightarrow> process c rand32 (e\<lparr>timeout := None\<rparr>))"

definition runQueued ::
  "'ip Cache \<Rightarrow> (32 word \<Rightarrow> 32 word) \<Rightarrow> 'ip NeighborCacheEntry \<Rightarrow> error + 'ip NeighborCacheEntry" where
  "runQueued c rand32 e =
     (if queued e = 0 then Inr e
      else scheduleNextUpdate c rand32 (e\<lparr>queued := queued e - 1\<rparr>))"

text \<open>
  \<open>ticks\<close>: consecutive timer expiries with nothing else in between. The cache's answers
  and the random source may differ from one expiry to the next, so each tick has its own.
\<close>

fun ticks ::
  "('ip Cache \<times> (32 word \<Rightarrow> 32 word)) list \<Rightarrow> 'ip NeighborCacheEntry \<Rightarrow> error + 'ip NeighborCacheEntry" where
  "ticks [] e = Inr e"
| "ticks ((c, rand32) # ws) e =
     (case timeoutExpired c rand32 e of
        Inl err \<Rightarrow> Inl err
      | Inr e' \<Rightarrow> ticks ws e')"

subsection \<open>Sequences of operations on one entry\<close>

text \<open>
  Everything that can happen to a constructed entry: the public \<^verbatim>\<open>updateState\<close>,
  \<^verbatim>\<open>setPending\<close> and \<^verbatim>\<open>process\<close>, and the two callbacks of the event base. Each operation
  carries the cache's answers (and the random source) of the moment it runs.
\<close>

datatype 'ip operation =
    UpdateState "'ip Cache" NeighborEntryState
  | SetPending "'ip Cache"
  | Process "'ip Cache" "32 word \<Rightarrow> 32 word"
  | TimeoutExpired "'ip Cache" "32 word \<Rightarrow> 32 word"
  | RunQueued "'ip Cache" "32 word \<Rightarrow> 32 word"

fun perform :: "'ip operation \<Rightarrow> 'ip NeighborCacheEntry \<Rightarrow> error + 'ip NeighborCacheEntry" where
  "perform (UpdateState c state) e = updateState c state e"
| "perform (SetPending c) e = setPending c e"
| "perform (Process c rand32) e = process c rand32 e"
| "perform (TimeoutExpired c rand32) e = timeoutExpired c rand32 e"
| "perform (RunQueued c rand32) e = runQueued c rand32 e"

fun run :: "'ip operation list \<Rightarrow> 'ip NeighborCacheEntry \<Rightarrow> error + 'ip NeighborCacheEntry" where
  "run [] e = Inr e"
| "run (op # ops) e = (case perform op e of Inl err \<Rightarrow> Inl err | Inr e' \<Rightarrow> run ops e')"



text \<open>
  The operations that call \<^verbatim>\<open>enter\<close> do so with the probe budget \<open>m\<close>. Under one budget an
  entry in state \<^verbatim>\<open>PROBE\<close> has fewer probes left than the budget, so has an entry in state
  \<^verbatim>\<open>INCOMPLETE\<close> unless the budget is 0, and an entry in state \<^verbatim>\<open>STALE\<close> or \<^verbatim>\<open>REACHABLE\<close>
  has no more than the budget.
\<close>

fun usesProbeBudget :: "32 word \<Rightarrow> 'ip operation \<Rightarrow> bool" where
  "usesProbeBudget m (UpdateState c state) = (getMaxNeighborProbes c = m)"
| "usesProbeBudget m (SetPending c) = (getMaxNeighborProbes c = m)"
| "usesProbeBudget m (Process c rand32) = True"
| "usesProbeBudget m (TimeoutExpired c rand32) = True"
| "usesProbeBudget m (RunQueued c rand32) = True"

definition budgetInv :: "32 word \<Rightarrow> 'ip NeighborCacheEntry \<Rightarrow> bool" where
  "budgetInv m e =
     ((m_state e = PROBE \<longrightarrow> unat (m_probesLeft e) < unat m) \<and>
      (m_state e = INCOMPLETE \<and> m \<noteq> 0 \<longrightarrow> unat (m_probesLeft e) < unat m) \<and>
      (m_state e = STALE \<or> m_state e = REACHABLE \<longrightarrow> unat (m_probesLeft e) \<le> unat m))"

text \<open>
  What \<^verbatim>\<open>folly::Random::rand32(max)\<close> may answer: a value below \<^verbatim>\<open>max\<close>, and 0 when \<^verbatim>\<open>max\<close>
  is 0. A lifetime is in range for a base when it is at least half the base and below
  the base and its half.
\<close>

definition validDraw :: "32 word \<Rightarrow> 32 word \<Rightarrow> bool" where
  "validDraw bound draw = (if bound = 0 then draw = 0 else draw < bound)"

definition lifetimeRange :: "int \<Rightarrow> int \<Rightarrow> bool" where
  "lifetimeRange base lifetime =
     (int64_div base 2 \<le> lifetime \<and> lifetime < base + int64_div base 2)"

subsection \<open>Concrete scenario inputs\<close>

definition scenarioFields :: "nat NeighborEntryFields" where
  "scenarioFields = \<lparr>ip = 7, mac = 0, port = 1, interfaceID = 1, pending = False\<rparr>"

definition scenarioCache :: "32 word \<Rightarrow> bool \<Rightarrow> nat Cache" where
  "scenarioCache maxProbes hit =
     \<lparr>getMaxNeighborProbes = maxProbes, getStaleEntryInterval = 10, getBaseTimeout = 30,
      isHit = (\<lambda>a. hit)\<rparr>"

definition scenarioDraw :: "32 word \<Rightarrow> 32 word" where
  "scenarioDraw bound = 12345"

text \<open>A cache with another base timeout, and the highest draw \<^verbatim>\<open>rand32\<close> may answer.\<close>

definition scenarioTimeoutCache :: "int \<Rightarrow> nat Cache" where
  "scenarioTimeoutCache seconds = (scenarioCache 3 False)\<lparr>getBaseTimeout := seconds\<rparr>"

definition scenarioTopDraw :: "32 word \<Rightarrow> 32 word" where
  "scenarioTopDraw bound = (if bound = 0 then 0 else bound - 1)"

section \<open>Routes and next hops\<close>

text \<open>
  Of the route model only \<^verbatim>\<open>RoutePrefix\<close> (fboss/agent/state/RouteTypes.h) is among the
  sources. Its \<^verbatim>\<open>operator==\<close> compares \<^verbatim>\<open>mask\<close> and \<^verbatim>\<open>network\<close>, which is equality of the
  record.
\<close>

type_synonym RouterID = nat
type_synonym InterfaceID = nat
type_synonym ClientID = nat
type_synonym AdminDistance = nat
type_synonym NextHopWeight = nat
type_synonym AclLookupClass = nat
type_synonym IPAddressV4 = "32 word"
type_synonym IPAddressV6 = "128 word"

datatype IPAddress = V4 IPAddressV4 | V6 IPAddressV6

record 'a RoutePrefix =
  network :: 'a
  mask :: "8 word"

datatype Action = DROP | TO_CPU | NEXTHOPS

text \<open>
  Modelled from the spec: the next hops and next-hop entries of the RIB (namespace
  \<^verbatim>\<open>rib\<close>) and of the FIB, declared in headers that are not among the sources. A next-hop
  entry is an action, an admin distance and a set of next hops; a next hop of the RIB has
  an optional interface (\<^verbatim>\<open>intfID()\<close> is a \<^verbatim>\<open>std::optional\<close>), a \<^verbatim>\<open>ResolvedNextHop\<close> of the FIB
  has one. Entries compare by value.
\<close>

record RibNextHop =
  rib_addr :: IPAddress
  rib_intfID :: "InterfaceID option"
  rib_weight :: NextHopWeight

record ResolvedNextHop =
  addr :: IPAddress
  intf :: InterfaceID
  weight :: NextHopWeight

record RibRouteNextHopEntry =
  rib_action :: Action
  rib_adminDistance :: AdminDistance
  rib_nextHopSet :: "RibNextHop set"

record RouteNextHopEntry =
  action :: Action
  adminDistance :: AdminDistance
  nextHopSet :: "ResolvedNextHop set"

text \<open>The two constructors of the FIB's \<^verbatim>\<open>RouteNextHopEntry\<close> that the updater calls.\<close>

definition actionEntry :: "Action \<Rightarrow> AdminDistance \<Rightarrow> RouteNextHopEntry" where
  "actionEntry a distance = \<lparr>action = a, adminDistance = distance, nextHopSet = {}\<rparr>"

definition nextHopsEntry :: "ResolvedNextHop set \<Rightarrow> AdminDistance \<Rightarrow> RouteNextHopEntry" where
  "nextHopsEntry nhops distance =
     \<lparr>action = NEXTHOPS, adminDistance = distance, nextHopSet = nhops\<rparr>"

text \<open>
  Modelled from the spec: the routes of the RIB (\<^verbatim>\<open>rib::Route\<close>) and of the FIB
  (\<^verbatim>\<open>Route\<close>, state/Route.h), neither among the sources. A route carries its prefix, its
  forward info, a resolved and a connected flag and a class id; a FIB route also the
  next-hop entries its clients contributed. \<^verbatim>\<open>setResolved\<close> writes the forward info and
  raises the resolved flag, \<^verbatim>\<open>setConnected\<close> raises the connected flag, \<^verbatim>\<open>updateClassID\<close>
  writes the class id, and \<^verbatim>\<open>clone\<close> copies every field into a new object.
\<close>

record 'a RibRoute =
  rib_prefix :: "'a RoutePrefix"
  rib_forwardInfo :: RibRouteNextHopEntry
  rib_resolved :: bool
  rib_connected :: bool
  rib_classID :: "AclLookupClass option"

record 'a Route =
  prefix :: "'a RoutePrefix"
  nexthopsmulti :: "(ClientID \<times> RouteNextHopEntry) list"
  fwd :: RouteNextHopEntry
  resolved :: bool
  connected :: bool
  classID :: "AclLookupClass option"

definition routeOfPrefix :: "'a RoutePrefix \<Rightarrow> 'a Route" where
  "routeOfPrefix fibPrefix =
     \<lparr>prefix = fibPrefix, nexthopsmulti = [], fwd = actionEntry DROP 255,
      resolved = False, connected = False, classID = None\<rparr>"

definition clone :: "'a Route \<Rightarrow> 'a Route" where
  "clone r = r"

definition setResolved :: "RouteNextHopEntry \<Rightarrow> 'a Route \<Rightarrow> 'a Route" where
  "setResolved f r = r\<lparr>fwd := f, resolved := True\<rparr>"

definition setConnected :: "'a Route \<Rightarrow> 'a Route" where
  "setConnected r = r\<lparr>connected := True\<rparr>"

definition updateClassID :: "AclLookupClass option \<Rightarrow> 'a Route \<Rightarrow> 'a Route" where
  "updateClassID c r = r\<lparr>classID := c\<rparr>"

definition getClassID :: "'a Route \<Rightarrow> AclLookupClass option" where
  "getClassID r = classID r"

definition getForwardInfo :: "'a Route \<Rightarrow> RouteNextHopEntry" where
  "getForwardInfo r = fwd r"

section \<open>Shared nodes\<close>

text \<open>
  A \<^verbatim>\<open>std::shared_ptr\<close> to a node is an address into a heap of nodes: the heap is the list
  of all nodes allocated so far and an address is an index into it. \<^verbatim>\<open>make_shared\<close> (and
  \<^verbatim>\<open>clone\<close>) put the new node at the end, so its address is one no older pointer has, and
  no node is written after it has been allocated. Two pointers are the same object when the
  addresses are equal. A null pointer is \<open>None\<close>.
\<close>

type_synonym ptr = nat

definition make_shared :: "'n \<Rightarrow> 'n list \<Rightarrow> 'n list \<times> ptr" where
  "make_shared node heap = (heap @ [node], length heap)"

section \<open>RIB and FIB containers\<close>

text \<open>
  \<^verbatim>\<open>NetworkToRouteMap\<close> is a radix tree from (network, mask) to RIB routes: the updater
  iterates it and asks \<^verbatim>\<open>exactMatch(network, mask)\<close>, of which it only tests whether the
  result is \<^verbatim>\<open>end()\<close>. Here it is the list of its entries in iteration order.
\<close>

type_synonym 'a NetworkToRouteMap = "(('a \<times> 8 word) \<times> 'a RibRoute) list"

definition exactMatch :: "'a NetworkToRouteMap \<Rightarrow> 'a \<Rightarrow> 8 word \<Rightarrow> 'a RibRoute option" where
  "exactMatch rib nw m = map_of rib (nw, m)"

text \<open>
  \<^verbatim>\<open>ForwardingInformationBase\<close> is a node map from prefix to route pointer, and its
  \<^verbatim>\<open>NodeContainer\<close> a flat map: the list of its entries, no key twice. \<^verbatim>\<open>emplace_hint\<close>
  inserts unless the key is present; the hint does not change the outcome. The new entry
  goes to the end of the list, which is where the hint \<^verbatim>\<open>cend()\<close> points and where the
  entry belongs when the RIB is iterated in the order of the prefixes.
\<close>

type_synonym 'a ForwardingInformationBase = "('a RoutePrefix \<times> ptr) list"

definition getNodeIf :: "'a ForwardingInformationBase \<Rightarrow> 'a RoutePrefix \<Rightarrow> ptr option" where
  "getNodeIf fib k = map_of fib k"

definition emplace_hint ::
  "'a ForwardingInformationBase \<Rightarrow> 'a RoutePrefix \<Rightarrow> ptr \<Rightarrow> 'a ForwardingInformationBase" where
  "emplace_hint container k p =
     (case map_of container k of None \<Rightarrow> container @ [(k, p)] | Some q \<Rightarrow> container)"

section \<open>FIB updater (fboss/agent/rib/ForwardingInformationBaseUpdater.cpp)\<close>

text \<open>
  \<^verbatim>\<open>toFibNextHop\<close>. In the \<^verbatim>\<open>NEXTHOPS\<close> case \<^verbatim>\<open>intfID().value()\<close> throws for a next hop
  without interface. The three actions are all there are, so the \<^verbatim>\<open>XLOG(FATAL)\<close> after the
  switch is not reached.
\<close>

definition toFibNextHop :: "RibRouteNextHopEntry \<Rightarrow> error + RouteNextHopEntry" where
  "toFibNextHop ribNextHopEntry =
     (case rib_action ribNextHopEntry of
        DROP \<Rightarrow> Inr (actionEntry DROP (rib_adminDistance ribNextHopEntry))
      | TO_CPU \<Rightarrow> Inr (actionEntry TO_CPU (rib_adminDistance ribNextHopEntry))
      | NEXTHOPS \<Rightarrow>
          if \<exists>ribNextHop \<in> rib_nextHopSet ribNextHopEntry. rib_intfID ribNextHop = None
          then Inl BadOptionalAccess
          else Inr (nextHopsEntry
                 ((\<lambda>ribNextHop. \<lparr>addr = rib_addr ribNextHop,
                                  intf = the (rib_intfID ribNextHop),
                                  weight = rib_weight ribNextHop\<rparr>)
                   ` rib_nextHopSet ribNextHopEntry)
                 (rib_adminDistance ribNextHopEntry)))"

definition toFibPrefix :: "'a RibRoute \<Rightarrow> 'a RoutePrefix" where
  "toFibPrefix ribRoute =
     \<lparr>network = network (rib_prefix ribRoute), mask = mask (rib_prefix ribRoute)\<rparr>"

text \<open>
  \<^verbatim>\<open>toFibRoute\<close>: the route is built on a clone of the current FIB route, or on a new route
  of the prefix when there is none, and allocated. The result is the heap with the new
  route and its address.
\<close>

definition toFibRoute ::
  "'a RibRoute \<Rightarrow> ptr option \<Rightarrow> 'a Route list \<Rightarrow> error + ('a Route list \<times> ptr)" where
  "toFibRoute ribRoute curFibRoute heap =
     (if \<not> rib_resolved ribRoute then Inl CheckFailed
      else
        let fibPrefix = toFibPrefix ribRoute;
            fibRoute = (case curFibRoute of
                          Some p \<Rightarrow> clone (heap ! p)
                        | None \<Rightarrow> routeOfPrefix fibPrefix)
        in case toFibNextHop (rib_forwardInfo ribRoute) of
             Inl err \<Rightarrow> Inl err
           | Inr f \<Rightarrow>
               let fibRoute = setResolved f fibRoute;
                   fibRoute = (if rib_connected ribRoute then setConnected fibRoute else fibRoute);
                   fibRoute = updateClassID (rib_classID ribRoute) fibRoute
               in Inr (make_shared fibRoute heap))"

text \<open>
  \<^verbatim>\<open>createUpdatedFib\<close>, first loop, one iteration: the state of the loop is the heap, the
  container \<^verbatim>\<open>updatedFib\<close> and the flag \<^verbatim>\<open>updated\<close>. The \<^verbatim>\<open>&&\<close> evaluates \<^verbatim>\<open>toFibNextHop\<close> only
  when the class ids are equal.
\<close>

definition updateEntry ::
  "'a ForwardingInformationBase \<Rightarrow> 'a RibRoute \<Rightarrow>
   'a Route list \<times> 'a ForwardingInformationBase \<times> bool \<Rightarrow>
   error + ('a Route list \<times> 'a ForwardingInformationBase \<times> bool)" where
  "updateEntry fib ribRoute st =
     (case st of (heap, updatedFib, updated) \<Rightarrow>
      if \<not> rib_resolved ribRoute then Inr (heap, updatedFib, updated)
      else
        let fibPrefix = toFibPrefix ribRoute;
            fibRoute = getNodeIf fib fibPrefix;
            fresh = (case toFibRoute ribRoute fibRoute heap of
                       Inl err \<Rightarrow> Inl err
                     | Inr (heap', p') \<Rightarrow> Inr (heap', emplace_hint updatedFib fibPrefix p', True))
        in case fibRoute of
             Some p \<Rightarrow>
               if getClassID (heap ! p) = rib_classID ribRoute
               then (case toFibNextHop (rib_forwardInfo ribRoute) of
                       Inl err \<Rightarrow> Inl err
                     | Inr f \<Rightarrow>
                         if f = getForwardInfo (heap ! p)
                         then Inr (heap, emplace_hint updatedFib fibPrefix p, updated)
                         else fresh)
               else fresh
           | None \<Rightarrow> fresh)"

fun updateEntries ::
  "'a ForwardingInformationBase \<Rightarrow> 'a NetworkToRouteMap \<Rightarrow>
   'a Route list \<times> 'a ForwardingInformationBase \<times> bool \<Rightarrow>
   error + ('a Route list \<times> 'a ForwardingInformationBase \<times> bool)" where
  "updateEntries fib [] st = Inr st"
| "updateEntries fib (entry # rib) st =
     (case updateEntry fib (snd entry) st of
        Inl err \<Rightarrow> Inl err
      | Inr st' \<Rightarrow> updateEntries fib rib st')"

text \<open>
  Second loop: is there a route of the previous FIB whose prefix the RIB no longer has?
  The loop stops at the first one.
\<close>

fun deletedRoute ::
  "'a NetworkToRouteMap \<Rightarrow> 'a Route list \<Rightarrow> 'a ForwardingInformationBase \<Rightarrow> bool" where
  "deletedRoute rib heap [] = False"
| "deletedRoute rib heap (fibEntry # fib) =
     (if exactMatch rib (network (prefix (heap ! snd fibEntry)))
                        (mask (prefix (heap ! snd fibEntry))) = None
      then True
      else deletedRoute rib heap fib)"

text \<open>
  \<^verbatim>\<open>createUpdatedFib\<close>: the new FIB, or a null pointer when nothing was updated. The
  \<^verbatim>\<open>DCHECK_EQ\<close> before the return compares the size of \<^verbatim>\<open>updatedFib\<close> with the number of
  resolved routes of the RIB.
\<close>

definition createUpdatedFib ::
  "'a NetworkToRouteMap \<Rightarrow> 'a ForwardingInformationBase \<Rightarrow> 'a Route list \<Rightarrow>
   error + ('a Route list \<times> 'a ForwardingInformationBase option)" where
  "createUpdatedFib rib fib heap =
     (case updateEntries fib rib (heap, [], False) of
        Inl err \<Rightarrow> Inl err
      | Inr (heap', updatedFib, updated) \<Rightarrow>
          let updated = (if deletedRoute rib heap' fib then True else updated)
          in Inr (heap', if updated then Some updatedFib else None))"

section \<open>Switch state\<close>

text \<open>
  Modelled from the spec: the part of \<^verbatim>\<open>SwitchState\<close> that the updater and the route
  walkers read (state/SwitchState.h and the node maps are not among the sources). The FIB
  map holds one \<^verbatim>\<open>ForwardingInformationBaseContainer\<close> per VRF, iterated in the order of
  the VRF ids, each with a FIB for IPv4 and one for IPv6. The route tables are what the
  walkers read when the RIB is not standalone.
\<close>

record FibContainer =
  vrf :: RouterID
  fibV4 :: "IPAddressV4 ForwardingInformationBase"
  fibV6 :: "IPAddressV6 ForwardingInformationBase"

record RouteTable =
  tableID :: RouterID
  ribV4 :: "IPAddressV4 ForwardingInformationBase"
  ribV6 :: "IPAddressV6 ForwardingInformationBase"

record SwitchState =
  fibs :: "FibContainer list"
  routeTables :: "RouteTable list"

definition getFibContainerIf :: "FibContainer list \<Rightarrow> RouterID \<Rightarrow> FibContainer option" where
  "getFibContainerIf fibMap rid = find (\<lambda>c. vrf c = rid) fibMap"

text \<open>
  Modelled from the spec: \<^verbatim>\<open>ForwardingInformationBaseContainer::modify\<close>, copy-on-write.
  The next state is a copy of the state in which the container of the VRF is replaced by
  a changed copy; everything else is shared.
\<close>

definition modify :: "RouterID \<Rightarrow> (FibContainer \<Rightarrow> FibContainer) \<Rightarrow> SwitchState \<Rightarrow> SwitchState" where
  "modify rid change s = s\<lparr>fibs := map (\<lambda>c. if vrf c = rid then change c else c) (fibs s)\<rparr>"

text \<open>
  All shared nodes the updater touches: the switch states and the routes of either
  family. A \<^verbatim>\<open>std::shared_ptr<SwitchState>\<close> is an address into \<open>states\<close>.
\<close>

record Store =
  states :: "SwitchState list"
  routesV4 :: "IPAddressV4 Route list"
  routesV6 :: "IPAddressV6 Route list"

record ForwardingInformationBaseUpdater =
  m_vrf :: RouterID
  m_v4NetworkToRoute :: "IPAddressV4 NetworkToRouteMap"
  m_v6NetworkToRoute :: "IPAddressV6 NetworkToRouteMap"

text \<open>
  \<^verbatim>\<open>ForwardingInformationBaseUpdater::operator()\<close>: the result is the pointer to return,
  \<open>state\<close> itself when neither FIB was updated, the address of the new \<^verbatim>\<open>nextState\<close>
  otherwise.
\<close>

definition applyUpdater ::
  "ForwardingInformationBaseUpdater \<Rightarrow> Store \<Rightarrow> ptr \<Rightarrow> error + (Store \<times> ptr)" where
  "applyUpdater u store state =
     (case getFibContainerIf (fibs (states store ! state)) (m_vrf u) of
        None \<Rightarrow> Inl CheckFailed
      | Some previousFibContainer \<Rightarrow>
          (case createUpdatedFib (m_v4NetworkToRoute u) (fibV4 previousFibContainer)
                  (routesV4 store) of
             Inl err \<Rightarrow> Inl err
           | Inr (heapV4, newFibV4) \<Rightarrow>
               (case createUpdatedFib (m_v6NetworkToRoute u) (fibV6 previousFibContainer)
                       (routesV6 store) of
                  Inl err \<Rightarrow> Inl err
                | Inr (heapV6, newFibV6) \<Rightarrow>
                    let store = store\<lparr>routesV4 := heapV4, routesV6 := heapV6\<rparr>
                    in if newFibV4 = None \<and> newFibV6 = None then Inr (store, state)
                       else
                         let writeV4 = (\<lambda>c. case newFibV4 of Some f \<Rightarrow> c\<lparr>fibV4 := f\<rparr> | None \<Rightarrow> c);
                             writeV6 = (\<lambda>c. case newFibV6 of Some f \<Rightarrow> c\<lparr>fibV6 := f\<rparr> | None \<Rightarrow> c);
                             (heap, nextState) =
                               make_shared
                                 (modify (m_vrf u) (\<lambda>c. writeV6 (writeV4 c)) (states store ! state))
                                 (states store)
                         in Inr (store\<lparr>states := heap\<rparr>, nextState))))"

subsection \<open>What the updater is measured against\<close>

text \<open>
  A RIB is well formed when no two entries share a key and every route sits under its own
  prefix; a FIB is valid in a heap when its pointers are addresses of the heap, and keyed
  when every route sits under its own prefix.
\<close>

definition wellFormedRib :: "'a NetworkToRouteMap \<Rightarrow> bool" where
  "wellFormedRib rib =
     (distinct (map fst rib) \<and>
      list_all (\<lambda>entry. fst entry = (network (rib_prefix (snd entry)), mask (rib_prefix (snd entry)))) rib)"

definition validFib :: "'a Route list \<Rightarrow> 'a ForwardingInformationBase \<Rightarrow> bool" where
  "validFib heap fib = list_all (\<lambda>fibEntry. snd fibEntry < length heap) fib"

definition keyedFib :: "'a Route list \<Rightarrow> 'a ForwardingInformationBase \<Rightarrow> bool" where
  "keyedFib heap fib = list_all (\<lambda>fibEntry. prefix (heap ! snd fibEntry) = fst fibEntry) fib"

text \<open>
  The RIB introduces no new or changed entry when every resolved route finds a FIB route
  under its prefix with its class id and its projected forward info; no FIB entry is
  absent from the resolved set when the prefix of every FIB route is the key of a resolved
  route of the RIB.
\<close>

definition unchangedEntry :: "'a Route list \<Rightarrow> 'a ForwardingInformationBase \<Rightarrow> 'a RibRoute \<Rightarrow> bool" where
  "unchangedEntry heap fib ribRoute =
     (case getNodeIf fib (toFibPrefix ribRoute) of
        None \<Rightarrow> False
      | Some p \<Rightarrow> getClassID (heap ! p) = rib_classID ribRoute \<and>
                  toFibNextHop (rib_forwardInfo ribRoute) = Inr (getForwardInfo (heap ! p)))"

definition noNewOrChangedEntry ::
  "'a NetworkToRouteMap \<Rightarrow> 'a ForwardingInformationBase \<Rightarrow> 'a Route list \<Rightarrow> bool" where
  "noNewOrChangedEntry rib fib heap =
     list_all (\<lambda>entry. if rib_resolved (snd entry) then unchangedEntry heap fib (snd entry) else True) rib"

definition noEntryAbsent ::
  "'a NetworkToRouteMap \<Rightarrow> 'a ForwardingInformationBase \<Rightarrow> 'a Route list \<Rightarrow> bool" where
  "noEntryAbsent rib fib heap =
     list_all (\<lambda>fibEntry.
        list_ex (\<lambda>entry. rib_resolved (snd entry) \<and>
                   fst entry = (network (prefix (heap ! snd fibEntry)),
                                mask (prefix (heap ! snd fibEntry)))) rib) fib"

subsection \<open>A concrete RIB, FIB and store\<close>

text \<open>
  VRF 0, IPv4: the RIB holds 10.0.0.0/8 (drop), 192.0.2.0/24 (via 10.0.0.1 on
  interface 1) and the unresolved 198.51.100.0/24. The FIB has 10.0.0.0/8 as the RIB
  wants it and 192.0.2.0/24 with an older next hop on interface 2.
\<close>

definition scenarioRibV4 :: "IPAddressV4 NetworkToRouteMap" where
  "scenarioRibV4 =
     [((167772160, 8),
       \<lparr>rib_prefix = \<lparr>network = 167772160, mask = 8\<rparr>,
        rib_forwardInfo = \<lparr>rib_action = DROP, rib_adminDistance = 1, rib_nextHopSet = {}\<rparr>,
        rib_resolved = True, rib_connected = False, rib_classID = None\<rparr>),
      ((3221225984, 24),
       \<lparr>rib_prefix = \<lparr>network = 3221225984, mask = 24\<rparr>,
        rib_forwardInfo =
          \<lparr>rib_action = NEXTHOPS, rib_adminDistance = 10,
           rib_nextHopSet = {\<lparr>rib_addr = V4 167772161, rib_intfID = Some 1, rib_weight = 1\<rparr>}\<rparr>,
        rib_resolved = True, rib_connected = False, rib_classID = None\<rparr>),
      ((3325256704, 24),
       \<lparr>rib_prefix = \<lparr>network = 3325256704, mask = 24\<rparr>,
        rib_forwardInfo =
          \<lparr>rib_action = NEXTHOPS, rib_adminDistance = 10,
           rib_nextHopSet = {\<lparr>rib_addr = V4 3405803777, rib_intfID = None, rib_weight = 1\<rparr>}\<rparr>,
        rib_resolved = False, rib_connected = False, rib_classID = None\<rparr>)]"

definition scenarioRoutesV4 :: "IPAddressV4 Route list" where
  "scenarioRoutesV4 =
     [\<lparr>prefix = \<lparr>network = 167772160, mask = 8\<rparr>, nexthopsmulti = [],
       fwd = \<lparr>action = DROP, adminDistance = 1, nextHopSet = {}\<rparr>,
       resolved = True, connected = False, classID = None\<rparr>,
      \<lparr>prefix = \<lparr>network = 3221225984, mask = 24\<rparr>,
       nexthopsmulti = [(786, \<lparr>action = NEXTHOPS, adminDistance = 10,
                               nextHopSet = {\<lparr>addr = V4 167772161, intf = 2, weight = 1\<rparr>}\<rparr>)],
       fwd = \<lparr>action = NEXTHOPS, adminDistance = 10,
              nextHopSet = {\<lparr>addr = V4 167772161, intf = 2, weight = 1\<rparr>}\<rparr>,
       resolved = True, connected = True, classID = None\<rparr>]"

definition scenarioFibV4 :: "IPAddressV4 ForwardingInformationBase" where
  "scenarioFibV4 =
     [(\<lparr>network = 167772160, mask = 8\<rparr>, 0), (\<lparr>network = 3221225984, mask = 24\<rparr>, 1)]"

definition scenarioRebuiltRoute :: "IPAddressV4 Route" where
  "scenarioRebuiltRoute =
     \<lparr>prefix = \<lparr>network = 3221225984, mask = 24\<rparr>,
      nexthopsmulti = [(786, \<lparr>action = NEXTHOPS, adminDistance = 10,
                              nextHopSet = {\<lparr>addr = V4 167772161, intf = 2, weight = 1\<rparr>}\<rparr>)],
      fwd = \<lparr>action = NEXTHOPS, adminDistance = 10,
             nextHopSet = {\<lparr>addr = V4 167772161, intf = 1, weight = 1\<rparr>}\<rparr>,
      resolved = True, connected = True, classID = None\<rparr>"

definition scenarioNewFibV4 :: "IPAddressV4 ForwardingInformationBase" where
  "scenarioNewFibV4 =
     [(\<lparr>network = 167772160, mask = 8\<rparr>, 0), (\<lparr>network = 3221225984, mask = 24\<rparr>, 2)]"

definition scenarioUpdater :: ForwardingInformationBaseUpdater where
  "scenarioUpdater =
     \<lparr>m_vrf = 0, m_v4NetworkToRoute = scenarioRibV4, m_v6NetworkToRoute = []\<rparr>"

definition scenarioState :: SwitchState where
  "scenarioState =
     \<lparr>fibs = [\<lparr>vrf = 0, fibV4 = scenarioFibV4, fibV6 = []\<rparr>], routeTables = []\<rparr>"

definition scenarioNextState :: SwitchState where
  "scenarioNextState =
     \<lparr>fibs = [\<lparr>vrf = 0, fibV4 = scenarioNewFibV4, fibV6 = []\<rparr>], routeTables = []\<rparr>"

definition scenarioStore :: Store where
  "scenarioStore = \<lparr>states = [scenarioState], routesV4 = scenarioRoutesV4, routesV6 = []\<rparr>"

definition scenarioNextStore :: Store where
  "scenarioNextStore =
     \<lparr>states = [scenarioState, scenarioNextState],
      routesV4 = scenarioRoutesV4 @ [scenarioRebuiltRoute], routesV6 = []\<rparr>"

text \<open>
  A later RIB of the same VRF: 10.0.0.0/8 is as before, and 192.0.2.0/24 now points at
  203.0.113.1, which no route covers, so that its route is unresolved.
\<close>

definition scenarioStaleRibV4 :: "IPAddressV4 NetworkToRouteMap" where
  "scenarioStaleRibV4 =
     [((167772160, 8),
       \<lparr>rib_prefix = \<lparr>network = 167772160, mask = 8\<rparr>,
        rib_forwardInfo = \<lparr>rib_action = DROP, rib_adminDistance = 1, rib_nextHopSet = {}\<rparr>,
        rib_resolved = True, rib_connected = False, rib_classID = None\<rparr>),
      ((3221225984, 24),
       \<lparr>rib_prefix = \<lparr>network = 3221225984, mask = 24\<rparr>,
        rib_forwardInfo =
          \<lparr>rib_action = NEXTHOPS, rib_adminDistance = 10,
           rib_nextHopSet = {\<lparr>rib_addr = V4 3405803777, rib_intfID = None, rib_weight = 1\<rparr>}\<rparr>,
        rib_resolved = False, rib_connected = False, rib_classID = None\<rparr>)]"

definition scenarioStaleUpdater :: ForwardingInformationBaseUpdater where
  "scenarioStaleUpdater =
     \<lparr>m_vrf = 0, m_v4NetworkToRoute = scenarioStaleRibV4, m_v6NetworkToRoute = []\<rparr>"

text \<open>
  An interface route that gives way to a static route. Interface 2 had the address
  192.0.2.1/24, so the FIB holds 192.0.2.0/24 as a connected route (client 2, the
  interface routes). The address is then removed, and what the RIB has left for the prefix
  is a static route via 10.0.0.1 on interface 1, which is not connected.
\<close>

definition scenarioInterfaceRoutesV4 :: "IPAddressV4 Route list" where
  "scenarioInterfaceRoutesV4 =
     [\<lparr>prefix = \<lparr>network = 3221225984, mask = 24\<rparr>,
       nexthopsmulti = [(2, \<lparr>action = NEXTHOPS, adminDistance = 0,
                             nextHopSet = {\<lparr>addr = V4 3221225985, intf = 2, weight = 0\<rparr>}\<rparr>)],
       fwd = \<lparr>action = NEXTHOPS, adminDistance = 0,
              nextHopSet = {\<lparr>addr = V4 3221225985, intf = 2, weight = 0\<rparr>}\<rparr>,
       resolved = True, connected = True, classID = None\<rparr>]"

definition scenarioInterfaceFibV4 :: "IPAddressV4 ForwardingInformationBase" where
  "scenarioInterfaceFibV4 = [(\<lparr>network = 3221225984, mask = 24\<rparr>, 0)]"

definition scenarioStaticRibV4 :: "IPAddressV4 NetworkToRouteMap" where
  "scenarioStaticRibV4 =
     [((3221225984, 24),
       \<lparr>rib_prefix = \<lparr>network = 3221225984, mask = 24\<rparr>,
        rib_forwardInfo =
          \<lparr>rib_action = NEXTHOPS, rib_adminDistance = 1,
           rib_nextHopSet = {\<lparr>rib_addr = V4 167772161, rib_intfID = Some 1, rib_weight = 1\<rparr>}\<rparr>,
        rib_resolved = True, rib_connected = False, rib_classID = None\<rparr>)]"

section \<open>Route walkers (fboss/agent/FibHelpers.h)\<close>

text \<open>
  A callback is a state transformer that may throw; a range-based \<^verbatim>\<open>for\<close> loop over a
  container runs its body on the elements in order and stops at the first throw.
\<close>

fun forEach :: "('x \<Rightarrow> 's \<Rightarrow> error + 's) \<Rightarrow> 'x list \<Rightarrow> 's \<Rightarrow> error + 's" where
  "forEach body [] s = Inr s"
| "forEach body (x # xs) s =
     (case body x s of
        Inl err \<Rightarrow> Inl err
      | Inr s' \<Rightarrow> forEach body xs s')"

text \<open>
  The callback of \<^verbatim>\<open>forAllRoutes\<close> and the callbacks of the untyped
  \<^verbatim>\<open>forEachChangedRoute\<close> are called with routes of both families.
\<close>

datatype AnyRoute = RouteV4 ptr | RouteV6 ptr

definition forAllRoutes ::
  "bool \<Rightarrow> SwitchState \<Rightarrow> (RouterID \<Rightarrow> AnyRoute \<Rightarrow> 's \<Rightarrow> error + 's) \<Rightarrow> 's \<Rightarrow> error + 's" where
  "forAllRoutes isStandaloneRib state func =
     (if isStandaloneRib
      then forEach
             (\<lambda>fibContainer s.
                let rid = vrf fibContainer in
                case forEach (\<lambda>route. func rid (RouteV6 (snd route))) (fibV6 fibContainer) s of
                  Inl err \<Rightarrow> Inl err
                | Inr s' \<Rightarrow> forEach (\<lambda>route. func rid (RouteV4 (snd route))) (fibV4 fibContainer) s')
             (fibs state)
      else forEach
             (\<lambda>routeTable s.
                let rid = tableID routeTable in
                case forEach (\<lambda>route. func rid (RouteV6 (snd route))) (ribV6 routeTable) s of
                  Inl err \<Rightarrow> Inl err
                | Inr s' \<Rightarrow> forEach (\<lambda>route. func rid (RouteV4 (snd route))) (ribV4 routeTable) s')
             (routeTables state))"

subsection \<open>State deltas\<close>

text \<open>
  Modelled from the spec: \<^verbatim>\<open>StateDelta\<close> and the node map deltas it hands out
  (state/StateDelta.h, state/NodeMapDelta.h and state/ForwardingInformationBaseDelta.h are
  not among the sources). A delta is a zipper over the old and the new node map, both in
  the order of their keys: an item is the old and the new node under one key, either of
  them absent when the key is in one map only, and a key under which both maps hold the
  same node gives no item. For a VRF that only one state has, the FIB delta is taken
  against an empty FIB. The order of the keys is a parameter: for prefixes it is
  \<^verbatim>\<open>RoutePrefix::operator<\<close>, which RouteTypes.h declares and does not define.
\<close>

record StateDelta =
  oldState :: SwitchState
  newState :: SwitchState

record 'n DeltaValue =
  getOld :: "'n option"
  getNew :: "'n option"

fun nodeMapDelta ::
  "('k \<Rightarrow> 'k \<Rightarrow> bool) \<Rightarrow> ('k \<times> 'n) list \<Rightarrow> ('k \<times> 'n) list \<Rightarrow> 'n DeltaValue list" where
  "nodeMapDelta keyLess [] [] = []"
| "nodeMapDelta keyLess (x # xs) [] =
     \<lparr>getOld = Some (snd x), getNew = None\<rparr> # nodeMapDelta keyLess xs []"
| "nodeMapDelta keyLess [] (y # ys) =
     \<lparr>getOld = None, getNew = Some (snd y)\<rparr> # nodeMapDelta keyLess [] ys"
| "nodeMapDelta keyLess (x # xs) (y # ys) =
     (if keyLess (fst x) (fst y)
      then \<lparr>getOld = Some (snd x), getNew = None\<rparr> # nodeMapDelta keyLess xs (y # ys)
      else if keyLess (fst y) (fst x)
      then \<lparr>getOld = None, getNew = Some (snd y)\<rparr> # nodeMapDelta keyLess (x # xs) ys
      else if snd x = snd y then nodeMapDelta keyLess xs ys
      else \<lparr>getOld = Some (snd x), getNew = Some (snd y)\<rparr> # nodeMapDelta keyLess xs ys)"

definition getFibsDelta :: "StateDelta \<Rightarrow> FibContainer DeltaValue list" where
  "getFibsDelta stateDelta =
     nodeMapDelta (<) (map (\<lambda>c. (vrf c, c)) (fibs (oldState stateDelta)))
                      (map (\<lambda>c. (vrf c, c)) (fibs (newState stateDelta)))"

definition getRouteTablesDelta :: "StateDelta \<Rightarrow> RouteTable DeltaValue list" where
  "getRouteTablesDelta stateDelta =
     nodeMapDelta (<) (map (\<lambda>t. (tableID t, t)) (routeTables (oldState stateDelta)))
                      (map (\<lambda>t. (tableID t, t)) (routeTables (newState stateDelta)))"

definition nodesOf :: "('c \<Rightarrow> ('k \<times> 'n) list) \<Rightarrow> 'c option \<Rightarrow> ('k \<times> 'n) list" where
  "nodesOf getMap container = (case container of None \<Rightarrow> [] | Some c \<Rightarrow> getMap c)"

definition getFibDelta ::
  "('a RoutePrefix \<Rightarrow> 'a RoutePrefix \<Rightarrow> bool) \<Rightarrow>
   (FibContainer \<Rightarrow> 'a ForwardingInformationBase) \<Rightarrow>
   FibContainer DeltaValue \<Rightarrow> ptr DeltaValue list" where
  "getFibDelta keyLess getFib fibContainerDelta =
     nodeMapDelta keyLess (nodesOf getFib (getOld fibContainerDelta))
                       (nodesOf getFib (getNew fibContainerDelta))"

definition getRoutesDelta ::
  "('a RoutePrefix \<Rightarrow> 'a RoutePrefix \<Rightarrow> bool) \<Rightarrow>
   (RouteTable \<Rightarrow> 'a ForwardingInformationBase) \<Rightarrow>
   RouteTable DeltaValue \<Rightarrow> ptr DeltaValue list" where
  "getRoutesDelta keyLess getRib routeTableDelta =
     nodeMapDelta keyLess (nodesOf getRib (getOld routeTableDelta))
                       (nodesOf getRib (getNew routeTableDelta))"

subsection \<open>\<^verbatim>\<open>forEachChangedRoute\<close>\<close>

text \<open>
  The two local closures. A route handed to a callback is a \<^verbatim>\<open>std::shared_ptr\<close> that may
  be null, so the callbacks take optional pointers; iterating a FIB yields its pointers,
  none of them null.
\<close>

definition removeAll ::
  "(RouterID \<Rightarrow> ptr option \<Rightarrow> 's \<Rightarrow> error + 's) \<Rightarrow> RouterID \<Rightarrow>
   'a ForwardingInformationBase \<Rightarrow> 's \<Rightarrow> error + 's" where
  "removeAll removedFn rid routes =
     forEach (\<lambda>oldRoute. removedFn rid (Some (snd oldRoute))) routes"

definition processRoutesDelta ::
  "(RouterID \<Rightarrow> ptr option \<Rightarrow> ptr option \<Rightarrow> 's \<Rightarrow> error + 's) \<Rightarrow>
   (RouterID \<Rightarrow> ptr option \<Rightarrow> 's \<Rightarrow> error + 's) \<Rightarrow>
   (RouterID \<Rightarrow> ptr option \<Rightarrow> 's \<Rightarrow> error + 's) \<Rightarrow>
   RouterID \<Rightarrow> ptr DeltaValue list \<Rightarrow> 's \<Rightarrow> error + 's" where
  "processRoutesDelta changedFn addedFn removedFn rid routesDelta =
     forEach
       (\<lambda>routeDelta.
          let oldRoute = getOld routeDelta; newRoute = getNew routeDelta in
          if oldRoute = None then addedFn rid newRoute
          else if newRoute = None then removedFn rid oldRoute
          else changedFn rid oldRoute newRoute)
       routesDelta"

text \<open>
  The body of the loop over the FIB container deltas, and of the loop over the route
  table deltas. With the new container absent the old one is dereferenced; should it be
  null as well, the behaviour of the code is undefined, which is an error here.
\<close>

definition fibContainerDeltaStep ::
  "('a RoutePrefix \<Rightarrow> 'a RoutePrefix \<Rightarrow> bool) \<Rightarrow>
   (FibContainer \<Rightarrow> 'a ForwardingInformationBase) \<Rightarrow>
   (RouterID \<Rightarrow> ptr option \<Rightarrow> ptr option \<Rightarrow> 's \<Rightarrow> error + 's) \<Rightarrow>
   (RouterID \<Rightarrow> ptr option \<Rightarrow> 's \<Rightarrow> error + 's) \<Rightarrow>
   (RouterID \<Rightarrow> ptr option \<Rightarrow> 's \<Rightarrow> error + 's) \<Rightarrow>
   FibContainer DeltaValue \<Rightarrow> 's \<Rightarrow> error + 's" where
  "fibContainerDeltaStep keyLess getFib changedFn addedFn removedFn fibContainerDelta =
     (case getNew fibContainerDelta of
        None \<Rightarrow>
          (case getOld fibContainerDelta of
             None \<Rightarrow> (\<lambda>s. Inl NullPointer)
           | Some oldFibContainer \<Rightarrow>
               removeAll removedFn (vrf oldFibContainer) (getFib oldFibContainer))
      | Some newFibContainer \<Rightarrow>
          processRoutesDelta changedFn addedFn removedFn (vrf newFibContainer)
            (getFibDelta keyLess getFib fibContainerDelta))"

definition routeTableDeltaStep ::
  "('a RoutePrefix \<Rightarrow> 'a RoutePrefix \<Rightarrow> bool) \<Rightarrow>
   (RouteTable \<Rightarrow> 'a ForwardingInformationBase) \<Rightarrow>
   (RouterID \<Rightarrow> ptr option \<Rightarrow> ptr option \<Rightarrow> 's \<Rightarrow> error + 's) \<Rightarrow>
   (RouterID \<Rightarrow> ptr option \<Rightarrow> 's \<Rightarrow> error + 's) \<Rightarrow>
   (RouterID \<Rightarrow> ptr option \<Rightarrow> 's \<Rightarrow> error + 's) \<Rightarrow>
   RouteTable DeltaValue \<Rightarrow> 's \<Rightarrow> error + 's" where
  "routeTableDeltaStep keyLess getRib changedFn addedFn removedFn routeTableDelta =
     (case getNew routeTableDelta of
        None \<Rightarrow>
          (case getOld routeTableDelta of
             None \<Rightarrow> (\<lambda>s. Inl NullPointer)
           | Some oldRouteTable \<Rightarrow>
               removeAll removedFn (tableID oldRouteTable) (getRib oldRouteTable))
      | Some newRouteTable \<Rightarrow>
          processRoutesDelta changedFn addedFn removedFn (tableID newRouteTable)
            (getRoutesDelta keyLess getRib routeTableDelta))"

text \<open>
  \<^verbatim>\<open>forEachChangedRoute<AddrT>\<close>. The address family comes as the order of its prefixes
  and the two selectors \<^verbatim>\<open>getFib<AddrT>\<close> and \<^verbatim>\<open>getRib<AddrT>()->routes()\<close>.
\<close>

definition forEachChangedRoute ::
  "('a RoutePrefix \<Rightarrow> 'a RoutePrefix \<Rightarrow> bool) \<Rightarrow>
   (FibContainer \<Rightarrow> 'a ForwardingInformationBase) \<Rightarrow>
   (RouteTable \<Rightarrow> 'a ForwardingInformationBase) \<Rightarrow>
   bool \<Rightarrow> StateDelta \<Rightarrow>
   (RouterID \<Rightarrow> ptr option \<Rightarrow> ptr option \<Rightarrow> 's \<Rightarrow> error + 's) \<Rightarrow>
   (RouterID \<Rightarrow> ptr option \<Rightarrow> 's \<Rightarrow> error + 's) \<Rightarrow>
   (RouterID \<Rightarrow> ptr option \<Rightarrow> 's \<Rightarrow> error + 's) \<Rightarrow>
   's \<Rightarrow> error + 's" where
  "forEachChangedRoute keyLess getFib getRib isStandaloneRib stateDelta changedFn addedFn removedFn =
     (if isStandaloneRib
      then forEach (fibContainerDeltaStep keyLess getFib changedFn addedFn removedFn)
             (getFibsDelta stateDelta)
      else forEach (routeTableDeltaStep keyLess getRib changedFn addedFn removedFn)
             (getRouteTablesDelta stateDelta))"

text \<open>The untyped \<^verbatim>\<open>forEachChangedRoute\<close>: IPv4, then IPv6, with the same callbacks.\<close>

definition forEachChangedRouteUntyped ::
  "(IPAddressV4 RoutePrefix \<Rightarrow> IPAddressV4 RoutePrefix \<Rightarrow> bool) \<Rightarrow>
   (IPAddressV6 RoutePrefix \<Rightarrow> IPAddressV6 RoutePrefix \<Rightarrow> bool) \<Rightarrow>
   bool \<Rightarrow> StateDelta \<Rightarrow>
   (RouterID \<Rightarrow> AnyRoute option \<Rightarrow> AnyRoute option \<Rightarrow> 's \<Rightarrow> error + 's) \<Rightarrow>
   (RouterID \<Rightarrow> AnyRoute option \<Rightarrow> 's \<Rightarrow> error + 's) \<Rightarrow>
   (RouterID \<Rightarrow> AnyRoute option \<Rightarrow> 's \<Rightarrow> error + 's) \<Rightarrow>
   's \<Rightarrow> error + 's" where
  "forEachChangedRouteUntyped lessV4 lessV6 isStandaloneRib delta changedFn addedFn removedFn s =
     (case forEachChangedRoute lessV4 fibV4 ribV4 isStandaloneRib delta
             (\<lambda>rid oldRoute newRoute.
                changedFn rid (map_option RouteV4 oldRoute) (map_option RouteV4 newRoute))
             (\<lambda>rid newRoute. addedFn rid (map_option RouteV4 newRoute))
             (\<lambda>rid oldRoute. removedFn rid (map_option RouteV4 oldRoute)) s of
        Inl err \<Rightarrow> Inl err
      | Inr s' \<Rightarrow>
          forEachChangedRoute lessV6 fibV6 ribV6 isStandaloneRib delta
            (\<lambda>rid oldRoute newRoute.
               changedFn rid (map_option RouteV6 oldRoute) (map_option RouteV6 newRoute))
            (\<lambda>rid newRoute. addedFn rid (map_option RouteV6 newRoute))
            (\<lambda>rid oldRoute. removedFn rid (map_option RouteV6 oldRoute)) s')"

subsection \<open>What the walkers are measured against\<close>

text \<open>
  The keys of two node maps in one ascending list, a key of both once; an order of keys
  is strict and total; a node map is ordered when its keys ascend.
\<close>

fun mergeKeys :: "('k \<Rightarrow> 'k \<Rightarrow> bool) \<Rightarrow> 'k list \<Rightarrow> 'k list \<Rightarrow> 'k list" where
  "mergeKeys keyLess [] ys = ys"
| "mergeKeys keyLess (x # xs) [] = x # xs"
| "mergeKeys keyLess (x # xs) (y # ys) =
     (if keyLess x y then x # mergeKeys keyLess xs (y # ys)
      else if keyLess y x then y # mergeKeys keyLess (x # xs) ys
      else x # mergeKeys keyLess xs ys)"

definition strictOrder :: "('k \<Rightarrow> 'k \<Rightarrow> bool) \<Rightarrow> bool" where
  "strictOrder keyLess =
     ((\<forall>a. \<not> keyLess a a) \<and> (\<forall>a b c. keyLess a b \<longrightarrow> keyLess b c \<longrightarrow> keyLess a c) \<and>
      (\<forall>a b. keyLess a b \<or> a = b \<or> keyLess b a))"

definition orderedMap :: "('k \<Rightarrow> 'k \<Rightarrow> bool) \<Rightarrow> ('k \<times> 'n) list \<Rightarrow> bool" where
  "orderedMap keyLess nodes = sorted_wrt keyLess (map fst nodes)"

text \<open>
  What a walk of one address family does for one VRF, and within it for one prefix, told from
  the two states alone.
\<close>

definition prefixCallback ::
  "(RouterID \<Rightarrow> ptr option \<Rightarrow> ptr option \<Rightarrow> 's \<Rightarrow> error + 's) \<Rightarrow>
   (RouterID \<Rightarrow> ptr option \<Rightarrow> 's \<Rightarrow> error + 's) \<Rightarrow>
   (RouterID \<Rightarrow> ptr option \<Rightarrow> 's \<Rightarrow> error + 's) \<Rightarrow>
   RouterID \<Rightarrow> ptr option \<Rightarrow> ptr option \<Rightarrow> 's \<Rightarrow> error + 's" where
  "prefixCallback changedFn addedFn removedFn rid oldRoute newRoute =
     (if oldRoute = newRoute then Inr
      else if oldRoute = None then addedFn rid newRoute
      else if newRoute = None then removedFn rid oldRoute
      else changedFn rid oldRoute newRoute)"

definition vrfCallbacks ::
  "('a RoutePrefix \<Rightarrow> 'a RoutePrefix \<Rightarrow> bool) \<Rightarrow>
   (FibContainer \<Rightarrow> 'a ForwardingInformationBase) \<Rightarrow>
   (RouterID \<Rightarrow> ptr option \<Rightarrow> ptr option \<Rightarrow> 's \<Rightarrow> error + 's) \<Rightarrow>
   (RouterID \<Rightarrow> ptr option \<Rightarrow> 's \<Rightarrow> error + 's) \<Rightarrow>
   (RouterID \<Rightarrow> ptr option \<Rightarrow> 's \<Rightarrow> error + 's) \<Rightarrow>
   FibContainer option \<Rightarrow> FibContainer option \<Rightarrow> RouterID \<Rightarrow> 's \<Rightarrow> error + 's" where
  "vrfCallbacks keyLess getFib changedFn addedFn removedFn oldContainer newContainer rid =
     (if oldContainer = newContainer then Inr
      else case newContainer of
        None \<Rightarrow>
          forEach (\<lambda>oldRoute. removedFn rid (Some (snd oldRoute))) (nodesOf getFib oldContainer)
      | Some newFibContainer \<Rightarrow>
          forEach
            (\<lambda>k. prefixCallback changedFn addedFn removedFn rid
                    (map_of (nodesOf getFib oldContainer) k)
                    (map_of (getFib newFibContainer) k))
            (mergeKeys keyLess (map fst (nodesOf getFib oldContainer))
                            (map fst (getFib newFibContainer))))"

text \<open>What the delta of two node maps holds for one key.\<close>

definition keyDelta :: "('k \<times> 'n) list \<Rightarrow> ('k \<times> 'n) list \<Rightarrow> 'k \<Rightarrow> 'n DeltaValue list" where
  "keyDelta olds news k =
     (if map_of olds k = map_of news k then []
      else [\<lparr>getOld = map_of olds k, getNew = map_of news k\<rparr>])"

subsection \<open>A concrete delta\<close>

text \<open>
  Modelled from the spec: \<^verbatim>\<open>RoutePrefix::operator<\<close>, the lexicographic order of network and
  mask.
\<close>

definition prefixLess :: "('a :: linorder) RoutePrefix \<Rightarrow> 'a RoutePrefix \<Rightarrow> bool" where
  "prefixLess a b = (network a < network b \<or> (network a = network b \<and> mask a < mask b))"

text \<open>
  Callbacks that log their calls: the callback of \<^verbatim>\<open>forAllRoutes\<close>, and the three of
  \<^verbatim>\<open>forEachChangedRoute\<close>, for routes of one family or of both.
\<close>

definition logRoute ::
  "RouterID \<Rightarrow> AnyRoute \<Rightarrow> (RouterID \<times> AnyRoute) list \<Rightarrow> error + (RouterID \<times> AnyRoute) list" where
  "logRoute rid route calls = Inr (calls @ [(rid, route)])"

datatype 'r RouteCall =
    Changed RouterID "'r option" "'r option"
  | Added RouterID "'r option"
  | Removed RouterID "'r option"

definition logChanged ::
  "RouterID \<Rightarrow> 'r option \<Rightarrow> 'r option \<Rightarrow> 'r RouteCall list \<Rightarrow> error + 'r RouteCall list" where
  "logChanged rid oldRoute newRoute calls = Inr (calls @ [Changed rid oldRoute newRoute])"

definition logAdded ::
  "RouterID \<Rightarrow> 'r option \<Rightarrow> 'r RouteCall list \<Rightarrow> error + 'r RouteCall list" where
  "logAdded rid newRoute calls = Inr (calls @ [Added rid newRoute])"

definition logRemoved ::
  "RouterID \<Rightarrow> 'r option \<Rightarrow> 'r RouteCall list \<Rightarrow> error + 'r RouteCall list" where
  "logRemoved rid oldRoute calls = Inr (calls @ [Removed rid oldRoute])"

text \<open>
  From the state before the update of VRF 0 to the state after it; besides, VRF 7 goes
  and VRF 9 comes, each with one route.
\<close>

definition scenarioDelta :: StateDelta where
  "scenarioDelta =
     \<lparr>oldState =
        \<lparr>fibs = [\<lparr>vrf = 0, fibV4 = scenarioFibV4, fibV6 = []\<rparr>,
                 \<lparr>vrf = 7, fibV4 = [(\<lparr>network = 167772160, mask = 8\<rparr>, 3)], fibV6 = []\<rparr>],
         routeTables = []\<rparr>,
      newState =
        \<lparr>fibs = [\<lparr>vrf = 0, fibV4 = scenarioNewFibV4, fibV6 = []\<rparr>,
                 \<lparr>vrf = 9, fibV4 = [(\<lparr>network = 167772160, mask = 8\<rparr>, 4)], fibV6 = []\<rparr>],
         routeTables = []\<rparr>\<rparr>"

text \<open>
  A state with routes of both families in two VRFs, and a delta in which VRF 0 gets
  another route for 10.0.0.0/8 and loses its route for 2001:db8::/32.
\<close>

definition scenarioFamiliesState :: SwitchState where
  "scenarioFamiliesState =
     \<lparr>fibs = [\<lparr>vrf = 0,
               fibV4 = [(\<lparr>network = 167772160, mask = 8\<rparr>, 0),
                        (\<lparr>network = 3221225984, mask = 24\<rparr>, 1)],
               fibV6 = [(\<lparr>network = 42540766411282592856903984951653826560, mask = 32\<rparr>, 5)]\<rparr>,
              \<lparr>vrf = 9,
               fibV4 = [(\<lparr>network = 167772160, mask = 8\<rparr>, 4)],
               fibV6 = [(\<lparr>network = 42540766411282592856903984951653826560, mask = 32\<rparr>, 6)]\<rparr>],
      routeTables = []\<rparr>"

definition scenarioFamiliesDelta :: StateDelta where
  "scenarioFamiliesDelta =
     \<lparr>oldState =
        \<lparr>fibs = [\<lparr>vrf = 0,
                  fibV4 = [(\<lparr>network = 167772160, mask = 8\<rparr>, 0)],
                  fibV6 = [(\<lparr>network = 42540766411282592856903984951653826560, mask = 32\<rparr>, 5)]\<rparr>],
         routeTables = []\<rparr>,
      newState =
        \<lparr>fibs = [\<lparr>vrf = 0,
                  fibV4 = [(\<lparr>network = 167772160, mask = 8\<rparr>, 1)],
                  fibV6 = []\<rparr>],
         routeTables = []\<rparr>\<rparr>"

section \<open>Properties of the neighbor cache entry\<close>

lemmas entry_defs = process_def runStateMachine_def probeStaleEntryIfHit_def probeIfProbesLeft_def
  scheduleNextUpdate_def scheduleTimeout_def isScheduled_def hasProbesLeft_def
  runInEventBaseThread_def enter_def

lemma ticks_no_timeout: "timeout e = None \<Longrightarrow> ticks ws e = Inr e"
  by (induction ws) (auto simp: timeoutExpired_def)

lemma tick_probing_left:
  assumes "m_state e = INCOMPLETE \<or> m_state e = PROBE" "timeout e = Some ms" "m_probesLeft e \<noteq> 0"
  shows "timeoutExpired c r e =
         Inr (e\<lparr>m_probesLeft := m_probesLeft e - 1, probed := probed e @ [getIP e], timeout := Some 1000\<rparr>)"
  using assms by (auto simp: timeoutExpired_def entry_defs getIP_def word_greater_zero_iff)

lemma tick_probing_none:
  assumes "m_state e = INCOMPLETE \<or> m_state e = PROBE" "timeout e = Some ms" "m_probesLeft e = 0"
  shows "timeoutExpired c r e = Inr (e\<lparr>m_state := EXPIRED, timeout := None\<rparr>)"
  using assms by (auto simp: timeoutExpired_def entry_defs)

lemma ticks_probing:
  "m_state e = INCOMPLETE \<or> m_state e = PROBE \<Longrightarrow> timeout e \<noteq> None \<Longrightarrow>
   unat (m_probesLeft e) = k \<Longrightarrow> k < length ws \<Longrightarrow>
   ticks ws e = Inr (e\<lparr>m_state := EXPIRED, m_probesLeft := 0,
                       probed := probed e @ replicate k (getIP e), timeout := None\<rparr>)"
proof (induction k arbitrary: e ws)
  case 0
  then obtain w ws' where ws: "ws = w # ws'" by (cases ws) auto
  obtain c r where w: "w = (c, r)" by (cases w)
  from 0 have z: "m_probesLeft e = 0" by (simp add: unat_eq_0)
  from 0 obtain ms where ms: "timeout e = Some ms" by auto
  show ?case
    using tick_probing_none[OF "0.prems"(1) ms z, of c r] z
    by (simp add: ws w ticks_no_timeout)
next
  case (Suc k)
  then obtain w ws' where ws: "ws = w # ws'" by (cases ws) auto
  obtain c r where w: "w = (c, r)" by (cases w)
  from Suc.prems have nz: "m_probesLeft e \<noteq> 0" by auto
  from Suc.prems obtain ms where ms: "timeout e = Some ms" by auto
  let ?e = "e\<lparr>m_probesLeft := m_probesLeft e - 1, probed := probed e @ [getIP e], timeout := Some 1000\<rparr>"
  have step: "timeoutExpired c r e = Inr ?e"
    by (rule tick_probing_left[OF Suc.prems(1) ms nz])
  have k: "unat (m_probesLeft ?e) = k"
    using Suc.prems(3) nz by (simp add: unat_minus_one)
  have "ticks ws' ?e = Inr (?e\<lparr>m_state := EXPIRED, m_probesLeft := 0,
                       probed := probed ?e @ replicate k (getIP ?e), timeout := None\<rparr>)"
    by (rule Suc.IH) (use Suc.prems k ws in auto)
  then show ?case
    by (simp add: ws w step getIP_def replicate_append_same)
qed

text \<open>
  An entry enters \<^verbatim>\<open>PROBE\<close> by spending a probe of a budget that \<^verbatim>\<open>enter\<close> has just set, and
  \<^verbatim>\<open>INCOMPLETE\<close> with one probe less than the budget. So whatever happens to an entry under
  one probe budget, in state \<^verbatim>\<open>PROBE\<close> it has fewer probes left than the budget, and in
  state \<^verbatim>\<open>INCOMPLETE\<close> as well when the budget is not 0.
\<close>

lemma unat_narrow_le: "unat (ucast (m :: 32 word) :: 8 word) \<le> unat m"
  by (simp add: unsigned_ucast_eq)

lemma unat_pred_less:
  assumes "w \<noteq> 0" and "unat (w :: 8 word) \<le> n"
  shows "unat (w - 1) < n"
proof -
  from assms(1) have "unat w \<noteq> 0" by (simp add: unat_eq_0)
  with assms(2) show ?thesis by (simp add: unat_minus_one[OF assms(1)])
qed


lemma probe_budgetInv:
  assumes "unat (m_probesLeft e) \<le> unat m"
  shows "budgetInv m (probeIfProbesLeft (e\<lparr>m_state := PROBE\<rparr>))"
  using assms unat_pred_less[of "m_probesLeft e" "unat m"]
  by (auto simp: budgetInv_def probeIfProbesLeft_def hasProbesLeft_def word_greater_zero_iff)

lemma runStateMachine_budgetInv:
  assumes "runStateMachine c e = Inr e'" and "budgetInv m e"
  shows "budgetInv m e'"
proof (cases "m_state e")
  case PROBE
  with assms have le: "unat (m_probesLeft e) \<le> unat m" by (simp add: budgetInv_def)
  from PROBE have "e\<lparr>m_state := PROBE\<rparr> = e" by simp
  with probe_budgetInv[OF le] assms(1) PROBE show ?thesis
    by (simp add: runStateMachine_def)
next
  case STALE
  with assms have le: "unat (m_probesLeft e) \<le> unat m" by (simp add: budgetInv_def)
  with probe_budgetInv[OF le] assms STALE show ?thesis
    by (auto simp: runStateMachine_def probeStaleEntryIfHit_def split: if_splits)
next
  case REACHABLE
  with assms have le: "unat (m_probesLeft (e\<lparr>m_state := STALE\<rparr>)) \<le> unat m"
    by (simp add: budgetInv_def)
  from probe_budgetInv[OF le] le assms(1) REACHABLE show ?thesis
    by (auto simp: runStateMachine_def probeStaleEntryIfHit_def budgetInv_def split: if_splits)
next
  case INCOMPLETE
  show ?thesis
  proof (cases "m = 0")
    case True
    with assms(1) INCOMPLETE show ?thesis
      by (auto simp: runStateMachine_def probeIfProbesLeft_def budgetInv_def split: if_splits)
  next
    case False
    with INCOMPLETE assms(2) have le: "unat (m_probesLeft e) \<le> unat m"
      by (simp add: budgetInv_def)
    from unat_pred_less[of "m_probesLeft e" "unat m"] le assms(1) INCOMPLETE show ?thesis
      by (auto simp: runStateMachine_def probeIfProbesLeft_def hasProbesLeft_def
          word_greater_zero_iff budgetInv_def split: if_splits)
  qed
qed (use assms(1) in \<open>simp_all add: runStateMachine_def\<close>)

lemma scheduleNextUpdate_budgetInv:
  "scheduleNextUpdate c r e = Inr e' \<Longrightarrow> budgetInv m e \<Longrightarrow> budgetInv m e'"
  by (cases "m_state e") (auto simp: scheduleNextUpdate_def scheduleTimeout_def budgetInv_def)

lemma process_budgetInv:
  assumes "process c r e = Inr e'" and "budgetInv m e"
  shows "budgetInv m e'"
proof (cases "isScheduled e")
  case True
  with assms show ?thesis by (simp add: process_def)
next
  case False
  with assms(1) obtain e1 where sm: "runStateMachine c e = Inr e1"
    and rest: "(if m_state e1 \<noteq> EXPIRED then scheduleNextUpdate c r e1 else Inr e1) = Inr e'"
    by (auto simp: process_def split: sum.splits)
  from runStateMachine_budgetInv[OF sm assms(2)] rest show ?thesis
    by (auto split: if_splits dest: scheduleNextUpdate_budgetInv)
qed

lemma enter_budgetInv:
  assumes "enter c s e = Inr e'" and "getMaxNeighborProbes c = m"
  shows "budgetInv m e'"
proof (cases s)
  case STALE
  let ?e = "e\<lparr>m_state := STALE, m_probesLeft := ucast m\<rparr>"
  have "budgetInv m ?e" using unat_narrow_le[of m] by (simp add: budgetInv_def)
  moreover from assms STALE obtain e2 where "runStateMachine c ?e = Inr e2"
    and "e' = runInEventBaseThread e2"
    by (auto simp: enter_def Let_def split: sum.splits)
  ultimately show ?thesis
    using runStateMachine_budgetInv[of c ?e e2 m]
    by (simp add: budgetInv_def runInEventBaseThread_def)
next
  case REACHABLE
  with assms show ?thesis using unat_narrow_le[of m]
    by (auto simp: enter_def Let_def budgetInv_def runInEventBaseThread_def)
next
  case INCOMPLETE
  have "unat (ucast (m - 1) :: 8 word) < unat m" if "m \<noteq> 0"
  proof -
    from that have "unat m \<noteq> 0" by (simp add: unat_eq_0)
    with unat_narrow_le[of "m - 1"] unat_minus_one[OF that] show ?thesis by simp
  qed
  with assms INCOMPLETE show ?thesis
    by (auto simp: enter_def Let_def budgetInv_def runInEventBaseThread_def)
qed (use assms in \<open>auto simp: enter_def Let_def budgetInv_def runInEventBaseThread_def\<close>)

lemma perform_budgetInv:
  assumes "perform op e = Inr e'" and "usesProbeBudget m op" and "budgetInv m e"
  shows "budgetInv m e'"
proof (cases op)
  case (TimeoutExpired c r)
  with assms show ?thesis
    by (auto simp: timeoutExpired_def budgetInv_def split: option.splits
        dest!: process_budgetInv[where m = m])
next
  case (RunQueued c r)
  with assms show ?thesis
    by (auto simp: runQueued_def budgetInv_def split: if_splits
        dest!: scheduleNextUpdate_budgetInv[where m = m])
qed (use assms in \<open>auto simp: updateState_def setPending_def
                       dest: enter_budgetInv process_budgetInv\<close>)

lemma run_budgetInv:
  "run ops e = Inr e' \<Longrightarrow> list_all (usesProbeBudget m) ops \<Longrightarrow> budgetInv m e \<Longrightarrow> budgetInv m e'"
proof (induction ops arbitrary: e)
  case Nil
  then show ?case by simp
next
  case (Cons op ops)
  then obtain e1 where e1: "perform op e = Inr e1" and rest: "run ops e1 = Inr e'"
    by (auto split: sum.splits)
  from Cons.prems have "usesProbeBudget m op" "list_all (usesProbeBudget m) ops" by auto
  with e1 rest Cons show ?case using perform_budgetInv by blast
qed

lemma probing_budget:
  assumes "newNeighborCacheEntry f c s = Inr e0" and "getMaxNeighborProbes c = m"
    and "run ops e0 = Inr e" and "list_all (usesProbeBudget m) ops"
    and "m_state e = PROBE \<or> (m_state e = INCOMPLETE \<and> m \<noteq> 0)"
  shows "unat (m_probesLeft e) < unat m"
proof -
  from assms(1,2) have "budgetInv m e0"
    unfolding newNeighborCacheEntry_def by (rule enter_budgetInv)
  from run_budgetInv[OF assms(3,4) this] assms(5) show ?thesis
    by (auto simp: budgetInv_def)
qed

text \<open>
  Claim C5, as amended. Take an entry from its constructor through any sequence of
  operations, none of which throws, all under one probe budget \<^verbatim>\<open>maxProbes\<close> that is not 0.
  When the entry is then in state \<^verbatim>\<open>INCOMPLETE\<close> or \<^verbatim>\<open>PROBE\<close> with its timeout pending, it is
  \<^verbatim>\<open>EXPIRED\<close> after \<^verbatim>\<open>maxProbes\<close> consecutive timer expiries, whatever the cache answers
  meanwhile. The expired entry has sent one probe per probe it had left, no timeout is
  scheduled, and neither \<^verbatim>\<open>scheduleNextUpdate\<close> nor a further expiry schedules one.
\<close>

theorem probing_entry_expires:
  assumes constructed: "newNeighborCacheEntry f c s = Inr e0"
    and reached: "run ops e0 = Inr e"
    and budget: "list_all (usesProbeBudget (getMaxNeighborProbes c)) ops"
    and positive: "getMaxNeighborProbes c \<noteq> 0"
    and probing: "m_state e = INCOMPLETE \<or> m_state e = PROBE"
    and scheduled: "timeout e \<noteq> None"
    and n: "length ws = unat (getMaxNeighborProbes c)"
  shows "\<exists>e'. ticks ws e = Inr e' \<and> m_state e' = EXPIRED \<and> timeout e' = None
            \<and> probed e' = probed e @ replicate (unat (m_probesLeft e)) (getIP e)
            \<and> scheduleNextUpdate c' rand32 e' = Inr e'
            \<and> timeoutExpired c' rand32 e' = Inr e'"
proof -
  from probing positive
  have "m_state e = PROBE \<or> (m_state e = INCOMPLETE \<and> getMaxNeighborProbes c \<noteq> 0)"
    by auto
  from probing_budget[OF constructed refl reached budget this]
  have left: "unat (m_probesLeft e) < unat (getMaxNeighborProbes c)" .
  from ticks_probing[OF probing scheduled refl, of ws] left n show ?thesis
    by (simp add: scheduleNextUpdate_def timeoutExpired_def)
qed

theorem probing_entry_expires_witness:
  "newNeighborCacheEntry scenarioFields (scenarioCache 3 False) INCOMPLETE
     = Inr \<lparr>m_fields = scenarioFields, m_state = INCOMPLETE, m_probesLeft = 2, timeout = None,
            queued = 1, probed = []\<rparr>
   \<and> run [RunQueued (scenarioCache 3 False) scenarioDraw]
        \<lparr>m_fields = scenarioFields, m_state = INCOMPLETE, m_probesLeft = 2, timeout = None,
         queued = 1, probed = []\<rparr>
     = Inr \<lparr>m_fields = scenarioFields, m_state = INCOMPLETE, m_probesLeft = 2,
            timeout = Some 1000, queued = 0, probed = []\<rparr>
   \<and> (\<exists>e'. ticks [(scenarioCache 3 False, scenarioDraw), (scenarioCache 3 True, scenarioDraw),
                  (scenarioCache 3 False, scenarioDraw)]
              \<lparr>m_fields = scenarioFields, m_state = INCOMPLETE, m_probesLeft = 2,
               timeout = Some 1000, queued = 0, probed = []\<rparr> = Inr e'
          \<and> m_state e' = EXPIRED \<and> timeout e' = None \<and> probed e' = [7, 7])"
proof -
  let ?start = "\<lparr>m_fields = scenarioFields, m_state = INCOMPLETE, m_probesLeft = 2,
             timeout = None, queued = 1, probed = []\<rparr>"
  let ?e = "\<lparr>m_fields = scenarioFields, m_state = INCOMPLETE, m_probesLeft = 2,
             timeout = Some 1000, queued = 0, probed = []\<rparr>"
  let ?ws = "[(scenarioCache 3 False, scenarioDraw), (scenarioCache 3 True, scenarioDraw),
              (scenarioCache 3 False, scenarioDraw)]"
  have h0: "newNeighborCacheEntry scenarioFields (scenarioCache 3 False) INCOMPLETE = Inr ?start"
    by (simp add: newNeighborCacheEntry_def entry_defs scenarioCache_def)
  have h1: "run [RunQueued (scenarioCache 3 False) scenarioDraw] ?start = Inr ?e"
    by (simp add: runQueued_def entry_defs)
  have h2: "list_all (usesProbeBudget (getMaxNeighborProbes (scenarioCache 3 False)))
              [RunQueued (scenarioCache 3 False) scenarioDraw]"
    by simp
  have h3: "getMaxNeighborProbes (scenarioCache 3 False) \<noteq> 0"
    by (simp add: scenarioCache_def)
  have h4: "m_state ?e = INCOMPLETE \<or> m_state ?e = PROBE" by simp
  have h5: "timeout ?e \<noteq> None" by simp
  have h6: "length ?ws = unat (getMaxNeighborProbes (scenarioCache 3 False))"
    by (simp add: scenarioCache_def)
  have u: "unat (m_probesLeft ?e) = Suc (Suc 0)" by simp
  have r: "replicate (unat (m_probesLeft ?e)) (getIP ?e) = [7, 7]"
    unfolding u by (simp add: getIP_def scenarioFields_def)
  from probing_entry_expires[OF h0 h1 h2 h3 h4 h5 h6, of "scenarioCache 3 False" scenarioDraw]
  have "\<exists>e'. ticks ?ws ?e = Inr e' \<and> m_state e' = EXPIRED \<and> timeout e' = None
             \<and> probed e' = [7, 7]"
    unfolding r by auto
  with h0 h1 show ?thesis by blast
qed

lemma narrow_minus_one: "(ucast (- 1 :: 32 word) :: 8 word) = 255"
proof -
  have "(ucast (- 1 :: 32 word) :: 8 word) = - 1"
    by (rule bit_word_eqI) (simp add: bit_simps)
  then show ?thesis by simp
qed

text \<open>
  The claim as stated fails for a probe budget of 0: \<^verbatim>\<open>enter\<close> computes \<^verbatim>\<open>maxProbes - 1\<close> on
  unsigned integers, so the \<^verbatim>\<open>INCOMPLETE\<close> entry starts with 255 probes left, and after
  \<^verbatim>\<open>maxProbes\<close> expiries, which is none, it is still \<^verbatim>\<open>INCOMPLETE\<close>; the first expiry sends
  a probe and leaves it \<^verbatim>\<open>INCOMPLETE\<close> as well.
\<close>

theorem zero_budget_incomplete_counterexample:
  "newNeighborCacheEntry scenarioFields (scenarioCache 0 False) INCOMPLETE
     = Inr \<lparr>m_fields = scenarioFields, m_state = INCOMPLETE, m_probesLeft = 255, timeout = None,
            queued = 1, probed = []\<rparr>
   \<and> run [RunQueued (scenarioCache 0 False) scenarioDraw]
        \<lparr>m_fields = scenarioFields, m_state = INCOMPLETE, m_probesLeft = 255, timeout = None,
         queued = 1, probed = []\<rparr>
     = Inr \<lparr>m_fields = scenarioFields, m_state = INCOMPLETE, m_probesLeft = 255,
            timeout = Some 1000, queued = 0, probed = []\<rparr>
   \<and> unat (getMaxNeighborProbes (scenarioCache 0 False)) = 0
   \<and> ticks []
        \<lparr>m_fields = scenarioFields, m_state = INCOMPLETE, m_probesLeft = 255,
         timeout = Some 1000, queued = 0, probed = []\<rparr>
     = Inr \<lparr>m_fields = scenarioFields, m_state = INCOMPLETE, m_probesLeft = 255,
            timeout = Some 1000, queued = 0, probed = []\<rparr>
   \<and> ticks [(scenarioCache 0 False, scenarioDraw)]
        \<lparr>m_fields = scenarioFields, m_state = INCOMPLETE, m_probesLeft = 255,
         timeout = Some 1000, queued = 0, probed = []\<rparr>
     = Inr \<lparr>m_fields = scenarioFields, m_state = INCOMPLETE, m_probesLeft = 254,
            timeout = Some 1000, queued = 0, probed = [7]\<rparr>"
  by (simp add: newNeighborCacheEntry_def runQueued_def timeoutExpired_def entry_defs getIP_def
      scenarioCache_def scenarioFields_def narrow_minus_one)














lemma int64_div_nonneg: "0 \<le> a \<Longrightarrow> int64_div a 2 = a div 2"
  by (simp add: int64_div_def)

lemma int64_in_range: "- (2 ^ 63) \<le> x \<Longrightarrow> x < 2 ^ 63 \<Longrightarrow> int64 x = x"
  by (simp add: int64_def)

text \<open>
  Claim C8, as amended. Let the base timeout be at least one second and its count of
  milliseconds, \<^verbatim>\<open>base\<close>, fit a signed 64-bit integer. Then for every draw that \<^verbatim>\<open>rand32\<close>
  may answer for its bound the lifetime is at least \<^verbatim>\<open>base / 2\<close> and below
  \<^verbatim>\<open>base + base / 2\<close>, which is \<^verbatim>\<open>3 * base / 2\<close>.
\<close>

theorem calculateLifetime_range:
  assumes positive: "0 < getBaseTimeout c"
    and fits: "getBaseTimeout c * 1000 < 2 ^ 63"
    and draw: "validDraw (word_of_int (getBaseTimeout c * 1000))
                 (rand32 (word_of_int (getBaseTimeout c * 1000)))"
  shows "lifetimeRange (getBaseTimeout c * 1000) (calculateLifetime c rand32)
       \<and> getBaseTimeout c * 1000 + int64_div (getBaseTimeout c * 1000) 2
           = int64_div (3 * (getBaseTimeout c * 1000)) 2"
proof -
  define base where "base = getBaseTimeout c * 1000"
  define r where "r = uint (rand32 (word_of_int base))"
  have b0: "0 < base" using positive by (simp add: base_def)
  have b1: "base < 2 ^ 63" using fits by (simp add: base_def)
  have wrap: "int64 base = base" using b0 b1 by (intro int64_in_range) simp_all
  have bound: "uint (word_of_int base :: 32 word) \<le> base"
    using b0 by (simp add: uint_word_of_int zmod_le_nonneg_dividend)
  have up: "r < base"
  proof (cases "(word_of_int base :: 32 word) = 0")
    case True
    with draw have "r = 0" by (simp add: validDraw_def base_def r_def)
    with b0 show ?thesis by simp
  next
    case False
    with draw have "rand32 (word_of_int base) < (word_of_int base :: 32 word)"
      by (simp add: validDraw_def base_def)
    then have "r < uint (word_of_int base :: 32 word)" by (simp add: r_def word_less_def)
    with bound show ?thesis by simp
  qed
  have lo: "0 \<le> r" by (simp add: r_def)
  have r32: "r < 2 ^ 32" using uint_bounded[of "rand32 (word_of_int base)"] by (simp add: r_def)
  have td: "int64_div base 2 = base div 2" using b0 by (intro int64_div_nonneg) simp
  have td3: "int64_div (3 * base) 2 = (3 * base) div 2" using b0 by (intro int64_div_nonneg) simp
  have sum: "int64 (r + base div 2) = r + base div 2"
    using lo r32 b0 b1 by (intro int64_in_range) simp_all
  have L: "calculateLifetime c rand32 = r + base div 2"
    by (simp add: calculateLifetime_def base_def[symmetric] Let_def wrap td r_def[symmetric] sum)
  show ?thesis
    unfolding L base_def[symmetric] td td3 lifetimeRange_def using up lo by auto
qed

theorem calculateLifetime_range_witness:
  "0 < getBaseTimeout (scenarioCache 3 False)
   \<and> getBaseTimeout (scenarioCache 3 False) * 1000 < 2 ^ 63
   \<and> validDraw (word_of_int (getBaseTimeout (scenarioCache 3 False) * 1000))
        (scenarioDraw (word_of_int (getBaseTimeout (scenarioCache 3 False) * 1000)))
   \<and> calculateLifetime (scenarioCache 3 False) scenarioDraw = 27345
   \<and> lifetimeRange 30000 27345
   \<and> 15000 \<le> calculateLifetime (scenarioCache 3 False) scenarioDraw
   \<and> calculateLifetime (scenarioCache 3 False) scenarioDraw < 45000"
  using calculateLifetime_range[of "scenarioCache 3 False" scenarioDraw]
  by (simp add: scenarioCache_def scenarioDraw_def int64_div_def validDraw_def
      lifetimeRange_def calculateLifetime_def int64_def)

text \<open>
  The claim as stated fails at both ends. With a base timeout of 0 the lifetime is 0 and
  the interval from 0 to 0 is empty. With a base timeout of 9223372036854776 seconds the
  count of milliseconds no longer fits 64 bits: \<^verbatim>\<open>base\<close> wraps around to a negative number,
  and so does the lifetime.
\<close>

theorem calculateLifetime_range_counterexample:
  "validDraw (word_of_int (getBaseTimeout (scenarioTimeoutCache 0) * 1000))
     (scenarioTopDraw (word_of_int (getBaseTimeout (scenarioTimeoutCache 0) * 1000)))
   \<and> calculateLifetime (scenarioTimeoutCache 0) scenarioTopDraw = 0
   \<and> \<not> lifetimeRange (getBaseTimeout (scenarioTimeoutCache 0) * 1000)
          (calculateLifetime (scenarioTimeoutCache 0) scenarioTopDraw)
   \<and> calculateLifetime (scenarioTimeoutCache 9223372036854776) scenarioTopDraw
       = - 4611686018427387617
   \<and> \<not> lifetimeRange (getBaseTimeout (scenarioTimeoutCache 9223372036854776) * 1000)
          (calculateLifetime (scenarioTimeoutCache 9223372036854776) scenarioTopDraw)"
  by (simp add: scenarioTimeoutCache_def scenarioCache_def scenarioTopDraw_def validDraw_def
      lifetimeRange_def calculateLifetime_def int64_def int64_div_def)

text \<open>
  Claim C10, as amended. Constructing an entry in state \<^verbatim>\<open>PROBE\<close>, \<^verbatim>\<open>EXPIRED\<close>, \<^verbatim>\<open>DELAY\<close> or
  \<^verbatim>\<open>UNINITIALIZED\<close> throws; \<^verbatim>\<open>INCOMPLETE\<close> leaves \<^verbatim>\<open>probesLeft_\<close> at \<^verbatim>\<open>maxProbes - 1\<close> and
  \<^verbatim>\<open>REACHABLE\<close> at \<^verbatim>\<open>maxProbes\<close> (narrowed to eight bits). \<^verbatim>\<open>STALE\<close> sets \<^verbatim>\<open>maxProbes\<close> and
  runs the state machine at once: with the hit bit clear the entry is \<^verbatim>\<open>STALE\<close> with
  \<^verbatim>\<open>maxProbes\<close> probes left; with it set the entry is \<^verbatim>\<open>PROBE\<close>, has sent one probe and has
  \<^verbatim>\<open>maxProbes - 1\<close> left, or is \<^verbatim>\<open>EXPIRED\<close> when it had none.
\<close>

theorem constructor_outcomes:
  "newNeighborCacheEntry f c PROBE = Inl (FbossError ''Tried to create entry with invalid state'')
   \<and> newNeighborCacheEntry f c EXPIRED = Inl (FbossError ''Tried to create entry with invalid state'')
   \<and> newNeighborCacheEntry f c DELAY = Inl (FbossError ''Tried to create entry with invalid state'')
   \<and> newNeighborCacheEntry f c UNINITIALIZED
       = Inl (FbossError ''Tried to create entry with invalid state'')
   \<and> newNeighborCacheEntry f c INCOMPLETE
       = Inr \<lparr>m_fields = f, m_state = INCOMPLETE,
              m_probesLeft = ucast (getMaxNeighborProbes c - 1),
              timeout = None, queued = 1, probed = []\<rparr>
   \<and> newNeighborCacheEntry f c REACHABLE
       = Inr \<lparr>m_fields = f, m_state = REACHABLE,
              m_probesLeft = ucast (getMaxNeighborProbes c),
              timeout = None, queued = 1, probed = []\<rparr>
   \<and> newNeighborCacheEntry f c STALE
       = Inr (if isHit c (ip f)
              then (if 0 < (ucast (getMaxNeighborProbes c) :: 8 word)
                    then \<lparr>m_fields = f, m_state = PROBE,
                          m_probesLeft = ucast (getMaxNeighborProbes c) - 1,
                          timeout = None, queued = 1, probed = [ip f]\<rparr>
                    else \<lparr>m_fields = f, m_state = EXPIRED,
                          m_probesLeft = ucast (getMaxNeighborProbes c),
                          timeout = None, queued = 1, probed = []\<rparr>)
              else \<lparr>m_fields = f, m_state = STALE,
                    m_probesLeft = ucast (getMaxNeighborProbes c),
                    timeout = None, queued = 1, probed = []\<rparr>)"
  by (simp add: newNeighborCacheEntry_def entry_defs getIP_def)

text \<open>
  The claim as stated fails for \<^verbatim>\<open>STALE\<close> with the hit bit set: of 3 probes, 2 are left
  when the constructor returns, and the entry is in state \<^verbatim>\<open>PROBE\<close>.
\<close>

theorem constructor_stale_hit_counterexample:
  "newNeighborCacheEntry scenarioFields (scenarioCache 3 True) STALE
     = Inr \<lparr>m_fields = scenarioFields, m_state = PROBE, m_probesLeft = 2, timeout = None,
            queued = 1, probed = [7]\<rparr>"
  by (simp add: newNeighborCacheEntry_def entry_defs getIP_def scenarioCache_def scenarioFields_def)

section \<open>Properties of the FIB updater\<close>

lemma toFibNextHop_error: "toFibNextHop e = Inl err \<Longrightarrow> err = BadOptionalAccess"
  by (auto simp: toFibNextHop_def split: Action.splits if_splits)

lemma updateEntry_unresolved:
  "\<not> rib_resolved r \<Longrightarrow> updateEntry fib r st = Inr st"
  by (cases st) (simp add: updateEntry_def)

lemma updateEntry_resolved:
  assumes "rib_resolved r"
  shows "updateEntry fib r (heap, updatedFib, updated) =
    (case toFibNextHop (rib_forwardInfo r) of
       Inl err \<Rightarrow> Inl err
     | Inr f \<Rightarrow>
        (case getNodeIf fib (toFibPrefix r) of
           Some p \<Rightarrow>
             if classID (heap ! p) = rib_classID r \<and> f = fwd (heap ! p)
             then Inr (heap, emplace_hint updatedFib (toFibPrefix r) p, updated)
             else Inr (heap @ [(heap ! p)\<lparr>fwd := f, resolved := True,
                                 connected := (rib_connected r \<or> connected (heap ! p)),
                                 classID := rib_classID r\<rparr>],
                       emplace_hint updatedFib (toFibPrefix r) (length heap), True)
         | None \<Rightarrow>
             Inr (heap @ [(routeOfPrefix (toFibPrefix r))\<lparr>fwd := f, resolved := True,
                                 connected := rib_connected r,
                                 classID := rib_classID r\<rparr>],
                  emplace_hint updatedFib (toFibPrefix r) (length heap), True)))"
  using assms
  by (auto simp: updateEntry_def toFibRoute_def Let_def make_shared_def clone_def setResolved_def
        setConnected_def updateClassID_def getClassID_def getForwardInfo_def routeOfPrefix_def
      split: sum.splits option.splits)


lemma updateEntry_cases:
  assumes "updateEntry fib r (h, u, b) = Inr (h1, u1, b1)"
  obtains
    (skip) "\<not> rib_resolved r" "h1 = h" "u1 = u" "b1 = b"
  | (reuse) p f where "rib_resolved r" "toFibNextHop (rib_forwardInfo r) = Inr f"
      "getNodeIf fib (toFibPrefix r) = Some p"
      "classID (h ! p) = rib_classID r" "f = fwd (h ! p)"
      "h1 = h" "u1 = emplace_hint u (toFibPrefix r) p" "b1 = b"
  | (change) p f where "rib_resolved r" "toFibNextHop (rib_forwardInfo r) = Inr f"
      "getNodeIf fib (toFibPrefix r) = Some p"
      "\<not> (classID (h ! p) = rib_classID r \<and> f = fwd (h ! p))"
      "h1 = h @ [(h ! p)\<lparr>fwd := f, resolved := True,
                   connected := (rib_connected r \<or> connected (h ! p)),
                   classID := rib_classID r\<rparr>]"
      "u1 = emplace_hint u (toFibPrefix r) (length h)" "b1"
  | (new) f where "rib_resolved r" "toFibNextHop (rib_forwardInfo r) = Inr f"
      "getNodeIf fib (toFibPrefix r) = None"
      "h1 = h @ [(routeOfPrefix (toFibPrefix r))\<lparr>fwd := f, resolved := True,
                   connected := rib_connected r, classID := rib_classID r\<rparr>]"
      "u1 = emplace_hint u (toFibPrefix r) (length h)" "b1"
proof (cases "rib_resolved r")
  case False
  with assms have "h1 = h" "u1 = u" "b1 = b" by (simp_all add: updateEntry_unresolved)
  with False show ?thesis by (rule skip)
next
  case True
  note eq = assms[unfolded updateEntry_resolved[OF True]]
  from eq obtain f where f: "toFibNextHop (rib_forwardInfo r) = Inr f"
    by (cases "toFibNextHop (rib_forwardInfo r)") auto
  note eq2 = eq[unfolded f sum.case]
  show ?thesis
  proof (cases "getNodeIf fib (toFibPrefix r)")
    case None
    from eq2[unfolded None option.case] have
      "h1 = h @ [(routeOfPrefix (toFibPrefix r))\<lparr>fwd := f, resolved := True,
                   connected := rib_connected r, classID := rib_classID r\<rparr>]"
      "u1 = emplace_hint u (toFibPrefix r) (length h)" "b1" by simp_all
    with True f None show ?thesis by (rule new)
  next
    case (Some p)
    note eq3 = eq2[unfolded Some option.case]
    show ?thesis
    proof (cases "classID (h ! p) = rib_classID r \<and> f = fwd (h ! p)")
      case yes: True
      with eq3 have "h1 = h" "u1 = emplace_hint u (toFibPrefix r) p" "b1 = b" by simp_all
      with True f Some yes show ?thesis using reuse[of f p] by blast
    next
      case no: False
      with eq3 have
        "h1 = h @ [(h ! p)\<lparr>fwd := f, resolved := True,
                   connected := (rib_connected r \<or> connected (h ! p)),
                   classID := rib_classID r\<rparr>]"
        "u1 = emplace_hint u (toFibPrefix r) (length h)" "b1" by auto
      with True f Some no show ?thesis using change[of f p] by blast
    qed
  qed
qed

lemma updateEntry_error:
  assumes "updateEntry fib r st = Inl err"
  shows "err = BadOptionalAccess \<and> rib_resolved r
         \<and> toFibNextHop (rib_forwardInfo r) = Inl BadOptionalAccess"
proof -
  obtain h u b where st: "st = (h, u, b)" by (cases st)
  have res: "rib_resolved r"
    by (rule ccontr) (use assms in \<open>simp add: updateEntry_unresolved\<close>)
  from assms have "toFibNextHop (rib_forwardInfo r) = Inl err"
    unfolding st updateEntry_resolved[OF res]
    by (auto split: sum.splits option.splits if_splits)
  with res toFibNextHop_error show ?thesis by blast
qed

lemma updateEntries_heap:
  "updateEntries fib rib (h, u, b) = Inr (h', u', b') \<Longrightarrow>
   (\<exists>ext. h' = h @ ext) \<and> (b \<longrightarrow> b') \<and> (\<not> b' \<longrightarrow> h' = h)"
proof (induction rib arbitrary: h u b)
  case Nil
  then show ?case by simp
next
  case (Cons entry rib)
  from Cons.prems obtain h1 u1 b1 where
    step: "updateEntry fib (snd entry) (h, u, b) = Inr (h1, u1, b1)" and
    rest: "updateEntries fib rib (h1, u1, b1) = Inr (h', u', b')"
    by (auto split: sum.splits)
  from Cons.IH[OF rest] obtain ext where
    ih: "h' = h1 @ ext" "b1 \<longrightarrow> b'" "\<not> b' \<longrightarrow> h' = h1" by blast
  from step show ?case
    by (cases rule: updateEntry_cases) (use ih in auto)
qed

lemma emplace_hint_fresh:
  "k \<notin> set (map fst u) \<Longrightarrow> emplace_hint u k p = u @ [(k, p)]"
  by (simp add: emplace_hint_def map_of_eq_None_iff[THEN iffD2] image_iff split: option.splits)

lemma updateEntries_keys:
  "updateEntries fib rib (h, u, b) = Inr (h', u', b') \<Longrightarrow>
   distinct (map fst u @ map toFibPrefix (filter rib_resolved (map snd rib))) \<Longrightarrow>
   \<exists>added. u' = u @ added \<and> map fst added = map toFibPrefix (filter rib_resolved (map snd rib))"
proof (induction rib arbitrary: h u b)
  case Nil
  then show ?case by simp
next
  case (Cons entry rib)
  from Cons.prems(1) obtain h1 u1 b1 where
    step: "updateEntry fib (snd entry) (h, u, b) = Inr (h1, u1, b1)" and
    rest: "updateEntries fib rib (h1, u1, b1) = Inr (h', u', b')"
    by (auto split: sum.splits)
  show ?case
  proof (cases "rib_resolved (snd entry)")
    case False
    with step have "u1 = u" by (simp add: updateEntry_unresolved)
    with Cons.IH[OF rest] Cons.prems(2) False show ?thesis by simp
  next
    case True
    from Cons.prems(2) True have fresh: "toFibPrefix (snd entry) \<notin> set (map fst u)" by auto
    from step True obtain p where "u1 = emplace_hint u (toFibPrefix (snd entry)) p"
      by (cases rule: updateEntry_cases) auto
    with fresh have u1: "u1 = u @ [(toFibPrefix (snd entry), p)]"
      by (simp add: emplace_hint_fresh)
    from Cons.prems(2) True
    have "distinct (map fst u1 @ map toFibPrefix (filter rib_resolved (map snd rib)))"
      by (auto simp: u1)
    from Cons.IH[OF rest this] obtain added where
      "u' = u1 @ added" "map fst added = map toFibPrefix (filter rib_resolved (map snd rib))"
      by blast
    with u1 True show ?thesis by simp
  qed
qed

lemma updateEntries_error:
  "updateEntries fib rib st = Inl err \<Longrightarrow>
   err = BadOptionalAccess \<and>
   (\<exists>r \<in> snd ` set rib. rib_resolved r \<and> toFibNextHop (rib_forwardInfo r) = Inl BadOptionalAccess)"
proof (induction rib arbitrary: st)
  case Nil
  then show ?case by simp
next
  case (Cons entry rib)
  show ?case
  proof (cases "updateEntry fib (snd entry) st")
    case (Inl e)
    with Cons.prems have "e = err" by simp
    with updateEntry_error[OF Inl] show ?thesis by auto
  next
    case (Inr st1)
    with Cons.prems have "updateEntries fib rib st1 = Inl err" by simp
    from Cons.IH[OF this] show ?thesis by auto
  qed
qed


lemma validFib_lookup: "validFib h fib \<Longrightarrow> getNodeIf fib k = Some p \<Longrightarrow> p < length h"
  by (auto simp: validFib_def getNodeIf_def list_all_iff dest!: map_of_SomeD)

lemma validFib_append: "validFib h fib \<Longrightarrow> validFib (h @ ext) fib"
  by (auto simp: validFib_def list_all_iff)

lemma unchangedEntry_append:
  "validFib h fib \<Longrightarrow> unchangedEntry (h @ ext) fib r = unchangedEntry h fib r"
  by (auto simp: unchangedEntry_def nth_append dest: validFib_lookup split: option.splits)

lemma updateEntry_step:
  assumes step: "updateEntry fib r (h, u, b) = Inr (h1, u1, b1)" and res: "rib_resolved r"
  shows "\<exists>f. toFibNextHop (rib_forwardInfo r) = Inr f \<and>
     (if unchangedEntry h fib r
      then h1 = h \<and> b1 = b \<and>
           (\<exists>p. getNodeIf fib (toFibPrefix r) = Some p \<and> u1 = emplace_hint u (toFibPrefix r) p)
      else h1 = h @ [(case getNodeIf fib (toFibPrefix r) of
                         Some p \<Rightarrow> h ! p | None \<Rightarrow> routeOfPrefix (toFibPrefix r))
                      \<lparr>fwd := f, resolved := True,
                       connected := (rib_connected r \<or>
                          connected (case getNodeIf fib (toFibPrefix r) of
                                       Some p \<Rightarrow> h ! p | None \<Rightarrow> routeOfPrefix (toFibPrefix r))),
                       classID := rib_classID r\<rparr>]
           \<and> b1 \<and> u1 = emplace_hint u (toFibPrefix r) (length h))"
  using step
proof (cases rule: updateEntry_cases)
  case skip
  with res show ?thesis by simp
next
  case (reuse p f)
  then show ?thesis by (simp add: unchangedEntry_def getClassID_def getForwardInfo_def)
next
  case (change p f)
  then show ?thesis by (auto simp: unchangedEntry_def getClassID_def getForwardInfo_def)
next
  case (new f)
  then show ?thesis by (simp add: unchangedEntry_def routeOfPrefix_def)
qed

lemma map_of_emplace_fresh:
  "k \<notin> set (map fst u) \<Longrightarrow> map_of (emplace_hint u k p @ added) k = Some p"
proof -
  assume fresh: "k \<notin> set (map fst u)"
  then have "map_of u k = None" by (simp add: map_of_eq_None_iff)
  then show ?thesis by (simp add: emplace_hint_fresh[OF fresh] map_add_def)
qed

lemma updateEntries_lookup:
  "updateEntries fib rib (h, u, b) = Inr (h', u', b') \<Longrightarrow> validFib h fib \<Longrightarrow>
   distinct (map fst u @ map toFibPrefix (filter rib_resolved (map snd rib))) \<Longrightarrow>
   r \<in> snd ` set rib \<Longrightarrow> rib_resolved r \<Longrightarrow>
   \<exists>f. toFibNextHop (rib_forwardInfo r) = Inr f \<and>
     (if unchangedEntry h fib r
      then map_of u' (toFibPrefix r) = getNodeIf fib (toFibPrefix r)
      else \<exists>p'. map_of u' (toFibPrefix r) = Some p' \<and> length h \<le> p' \<and> p' < length h' \<and>
             h' ! p' = (case getNodeIf fib (toFibPrefix r) of
                          Some p \<Rightarrow> h ! p | None \<Rightarrow> routeOfPrefix (toFibPrefix r))
                       \<lparr>fwd := f, resolved := True,
                        connected := (rib_connected r \<or>
                           connected (case getNodeIf fib (toFibPrefix r) of
                                        Some p \<Rightarrow> h ! p | None \<Rightarrow> routeOfPrefix (toFibPrefix r))),
                        classID := rib_classID r\<rparr>)"
proof (induction rib arbitrary: h u b)
  case Nil
  then show ?case by simp
next
  case (Cons entry rib)
  from Cons.prems(1) obtain h1 u1 b1 where
    step: "updateEntry fib (snd entry) (h, u, b) = Inr (h1, u1, b1)" and
    rest: "updateEntries fib rib (h1, u1, b1) = Inr (h', u', b')"
    by (auto split: sum.splits)
  from updateEntries_heap[OF rest] obtain ext' where h': "h' = h1 @ ext'" by blast
  have grow: "\<exists>ext. h1 = h @ ext"
    using step by (cases rule: updateEntry_cases) auto
  then obtain ext where h1: "h1 = h @ ext" by blast
  have valid1: "validFib h1 fib" using Cons.prems(2) h1 by (simp add: validFib_append)
  show ?case
  proof (cases "r = snd entry")
    case True
    with Cons.prems(5) have res: "rib_resolved (snd entry)" by simp
    from Cons.prems(3) res have fresh: "toFibPrefix (snd entry) \<notin> set (map fst u)" by auto
    from step res obtain p0 where u1: "u1 = emplace_hint u (toFibPrefix (snd entry)) p0"
      by (cases rule: updateEntry_cases) auto
    from Cons.prems(3) res
    have dist1: "distinct (map fst u1 @ map toFibPrefix (filter rib_resolved (map snd rib)))"
      by (auto simp: u1 emplace_hint_fresh[OF fresh])
    from updateEntries_keys[OF rest dist1] obtain added where u': "u' = u1 @ added" by blast
    from updateEntry_step[OF step res] obtain f where
      f: "toFibNextHop (rib_forwardInfo (snd entry)) = Inr f" and
      st: "if unchangedEntry h fib (snd entry)
      then h1 = h \<and> b1 = b \<and>
           (\<exists>p. getNodeIf fib (toFibPrefix (snd entry)) = Some p \<and>
                u1 = emplace_hint u (toFibPrefix (snd entry)) p)
      else h1 = h @ [(case getNodeIf fib (toFibPrefix (snd entry)) of
                         Some p \<Rightarrow> h ! p | None \<Rightarrow> routeOfPrefix (toFibPrefix (snd entry)))
                      \<lparr>fwd := f, resolved := True,
                       connected := (rib_connected (snd entry) \<or>
                          connected (case getNodeIf fib (toFibPrefix (snd entry)) of
                                       Some p \<Rightarrow> h ! p | None \<Rightarrow> routeOfPrefix (toFibPrefix (snd entry)))),
                       classID := rib_classID (snd entry)\<rparr>]
           \<and> b1 \<and> u1 = emplace_hint u (toFibPrefix (snd entry)) (length h)"
      by blast
    show ?thesis
    proof (cases "unchangedEntry h fib (snd entry)")
      case same: True
      with st obtain p where p: "getNodeIf fib (toFibPrefix (snd entry)) = Some p"
        and up: "u1 = emplace_hint u (toFibPrefix (snd entry)) p" by auto
      have "map_of u' (toFibPrefix (snd entry)) = Some p"
        unfolding u' up by (rule map_of_emplace_fresh[OF fresh])
      with p have "map_of u' (toFibPrefix (snd entry)) = getNodeIf fib (toFibPrefix (snd entry))"
        by simp
      with f same True show ?thesis by simp
    next
      case diff: False
      with st have a: "h1 = h @ [(case getNodeIf fib (toFibPrefix (snd entry)) of
                         Some p \<Rightarrow> h ! p | None \<Rightarrow> routeOfPrefix (toFibPrefix (snd entry)))
                      \<lparr>fwd := f, resolved := True,
                       connected := (rib_connected (snd entry) \<or>
                          connected (case getNodeIf fib (toFibPrefix (snd entry)) of
                                       Some p \<Rightarrow> h ! p | None \<Rightarrow> routeOfPrefix (toFibPrefix (snd entry)))),
                       classID := rib_classID (snd entry)\<rparr>]"
        and b: "u1 = emplace_hint u (toFibPrefix (snd entry)) (length h)" by auto
      have m: "map_of u' (toFibPrefix (snd entry)) = Some (length h)"
        unfolding u' b by (rule map_of_emplace_fresh[OF fresh])
      have l: "length h < length h'" by (simp add: h' a)
      have n: "h' ! length h = (case getNodeIf fib (toFibPrefix (snd entry)) of
                         Some p \<Rightarrow> h ! p | None \<Rightarrow> routeOfPrefix (toFibPrefix (snd entry)))
                      \<lparr>fwd := f, resolved := True,
                       connected := (rib_connected (snd entry) \<or>
                          connected (case getNodeIf fib (toFibPrefix (snd entry)) of
                                       Some p \<Rightarrow> h ! p | None \<Rightarrow> routeOfPrefix (toFibPrefix (snd entry)))),
                       classID := rib_classID (snd entry)\<rparr>"
        by (simp add: h' a)
      from f diff True m l n show ?thesis by auto
    qed
  next
    case False
    with Cons.prems(4) have rin: "r \<in> snd ` set rib" by auto
    have dist1: "distinct (map fst u1 @ map toFibPrefix (filter rib_resolved (map snd rib)))"
    proof (cases "rib_resolved (snd entry)")
      case no: False
      with step have "u1 = u" by (simp add: updateEntry_unresolved)
      with Cons.prems(3) no show ?thesis by simp
    next
      case yes: True
      from Cons.prems(3) yes have fresh: "toFibPrefix (snd entry) \<notin> set (map fst u)" by auto
      from step yes obtain p0 where "u1 = emplace_hint u (toFibPrefix (snd entry)) p0"
        by (cases rule: updateEntry_cases) auto
      with Cons.prems(3) yes show ?thesis by (auto simp: emplace_hint_fresh[OF fresh])
    qed
    from Cons.IH[OF rest valid1 dist1 rin Cons.prems(5)] obtain f where
      f: "toFibNextHop (rib_forwardInfo r) = Inr f" and
      ih: "if unchangedEntry h1 fib r
      then map_of u' (toFibPrefix r) = getNodeIf fib (toFibPrefix r)
      else \<exists>p'. map_of u' (toFibPrefix r) = Some p' \<and> length h1 \<le> p' \<and> p' < length h' \<and>
             h' ! p' = (case getNodeIf fib (toFibPrefix r) of
                          Some p \<Rightarrow> h1 ! p | None \<Rightarrow> routeOfPrefix (toFibPrefix r))
                       \<lparr>fwd := f, resolved := True,
                        connected := (rib_connected r \<or>
                           connected (case getNodeIf fib (toFibPrefix r) of
                                        Some p \<Rightarrow> h1 ! p | None \<Rightarrow> routeOfPrefix (toFibPrefix r))),
                        classID := rib_classID r\<rparr>"
      by blast
    have un: "unchangedEntry h1 fib r = unchangedEntry h fib r"
      by (simp add: h1 unchangedEntry_append[OF Cons.prems(2)])
    have base: "(case getNodeIf fib (toFibPrefix r) of
                          Some p \<Rightarrow> h1 ! p | None \<Rightarrow> routeOfPrefix (toFibPrefix r))
              = (case getNodeIf fib (toFibPrefix r) of
                          Some p \<Rightarrow> h ! p | None \<Rightarrow> routeOfPrefix (toFibPrefix r))"
      using validFib_lookup[OF Cons.prems(2)] by (auto simp: h1 nth_append split: option.splits)
    have le: "length h \<le> length h1" by (simp add: h1)
    from f ih show ?thesis unfolding un base using le by (auto split: if_splits)
  qed
qed


lemma distinct_map_map: "distinct (map g (map f xs)) \<Longrightarrow> distinct (map f xs)"
  by (induction xs) auto

lemma wellFormedRib_distinct:
  assumes "wellFormedRib rib"
  shows "distinct (map toFibPrefix (map snd rib))"
proof -
  have keys: "map fst rib = map (\<lambda>k. (network k, mask k)) (map toFibPrefix (map snd rib))"
    using assms by (auto simp: wellFormedRib_def list_all_iff toFibPrefix_def)
  have "distinct (map fst rib)" using assms by (simp add: wellFormedRib_def)
  then show ?thesis unfolding keys by (rule distinct_map_map)
qed

lemma wellFormedRib_resolved_distinct:
  "wellFormedRib rib \<Longrightarrow> distinct (map toFibPrefix (filter rib_resolved (map snd rib)))"
  by (rule distinct_map_filter) (rule wellFormedRib_distinct)

lemma wellFormedRib_unresolved:
  assumes wf: "wellFormedRib rib" and r: "r \<in> snd ` set rib" "\<not> rib_resolved r"
  shows "toFibPrefix r \<notin> set (map toFibPrefix (filter rib_resolved (map snd rib)))"
proof
  define rs where "rs = map snd rib"
  assume "toFibPrefix r \<in> set (map toFibPrefix (filter rib_resolved (map snd rib)))"
  then obtain r' where r': "r' \<in> set rs" "rib_resolved r'" "toFibPrefix r' = toFibPrefix r"
    unfolding rs_def[symmetric] by auto
  from wellFormedRib_distinct[OF wf] have "inj_on toFibPrefix (set rs)"
    unfolding rs_def[symmetric] by (simp add: distinct_map)
  moreover have "r \<in> set rs" using r by (simp add: rs_def)
  ultimately have "r' = r" using r' by (auto dest: inj_onD)
  with r r' show False by simp
qed

lemma createUpdatedFib_Inr:
  assumes "createUpdatedFib rib fib heap = Inr (heap', res)"
  obtains updatedFib updated where
    "updateEntries fib rib (heap, [], False) = Inr (heap', updatedFib, updated)"
    "res = (if deletedRoute rib heap' fib \<or> updated then Some updatedFib else None)"
  using assms
  by (auto simp: createUpdatedFib_def Let_def split: sum.splits prod.splits if_splits)

text \<open>
  On a well-formed RIB and a prior FIB whose pointers are valid, \<^verbatim>\<open>createUpdatedFib\<close>
  throws only when a resolved route has a next hop without interface. Otherwise every FIB
  it returns holds exactly the resolved routes of the RIB: it has as many entries as the
  RIB has resolved routes, its keys are their prefixes, every resolved route is found
  under its prefix with the forward info \<^verbatim>\<open>toFibNextHop\<close> gives, and no unresolved route is
  found. Nothing is said here of the call that returns a null pointer.
\<close>

lemma createUpdatedFib_exact:
  assumes wf: "wellFormedRib rib" and valid: "validFib heap fib"
  shows "case createUpdatedFib rib fib heap of
           Inl err \<Rightarrow>
             err = BadOptionalAccess \<and>
             (\<exists>r \<in> snd ` set rib. rib_resolved r \<and>
                toFibNextHop (rib_forwardInfo r) = Inl BadOptionalAccess)
         | Inr (heap', res) \<Rightarrow>
             (\<forall>newFib. res = Some newFib \<longrightarrow>
                length newFib = length (filter rib_resolved (map snd rib)) \<and>
                map fst newFib = map toFibPrefix (filter rib_resolved (map snd rib)) \<and>
                (\<forall>r \<in> snd ` set rib. rib_resolved r \<longrightarrow>
                   (\<exists>p. getNodeIf newFib (toFibPrefix r) = Some p \<and> p < length heap' \<and>
                        toFibNextHop (rib_forwardInfo r) = Inr (getForwardInfo (heap' ! p)))) \<and>
                (\<forall>r \<in> snd ` set rib. \<not> rib_resolved r \<longrightarrow>
                   getNodeIf newFib (toFibPrefix r) = None))"
proof (cases "createUpdatedFib rib fib heap")
  case (Inl err)
  then have "updateEntries fib rib (heap, [], False) = Inl err"
    by (auto simp: createUpdatedFib_def Let_def split: sum.splits)
  from updateEntries_error[OF this] Inl show ?thesis by simp
next
  case (Inr result)
  obtain heap' res where result: "result = (heap', res)" by (cases result)
  from Inr[unfolded result] obtain updatedFib updated where
    run: "updateEntries fib rib (heap, [], False) = Inr (heap', updatedFib, updated)" and
    res: "res = (if deletedRoute rib heap' fib \<or> updated then Some updatedFib else None)"
    by (rule createUpdatedFib_Inr)
  have dist: "distinct (map fst [] @ map toFibPrefix (filter rib_resolved (map snd rib)))"
    using wellFormedRib_resolved_distinct[OF wf] by simp
  from updateEntries_keys[OF run dist]
  have keys: "map fst updatedFib = map toFibPrefix (filter rib_resolved (map snd rib))" by auto
  from updateEntries_heap[OF run] obtain ext where heap': "heap' = heap @ ext" by blast
  have len: "length updatedFib = length (filter rib_resolved (map snd rib))"
    using arg_cong[OF keys, of length] by simp
  have found: "\<exists>p. getNodeIf updatedFib (toFibPrefix r) = Some p \<and> p < length heap' \<and>
                   toFibNextHop (rib_forwardInfo r) = Inr (getForwardInfo (heap' ! p))"
    if r: "r \<in> snd ` set rib" "rib_resolved r" for r
  proof -
    from updateEntries_lookup[OF run valid dist r] obtain f where
      f: "toFibNextHop (rib_forwardInfo r) = Inr f" and
      l: "if unchangedEntry heap fib r
          then map_of updatedFib (toFibPrefix r) = getNodeIf fib (toFibPrefix r)
          else \<exists>p'. map_of updatedFib (toFibPrefix r) = Some p' \<and> length heap \<le> p' \<and>
                 p' < length heap' \<and>
                 heap' ! p' = (case getNodeIf fib (toFibPrefix r) of
                          Some p \<Rightarrow> heap ! p | None \<Rightarrow> routeOfPrefix (toFibPrefix r))
                       \<lparr>fwd := f, resolved := True,
                        connected := (rib_connected r \<or>
                           connected (case getNodeIf fib (toFibPrefix r) of
                                        Some p \<Rightarrow> heap ! p | None \<Rightarrow> routeOfPrefix (toFibPrefix r))),
                        classID := rib_classID r\<rparr>"
      by blast
    show ?thesis
    proof (cases "unchangedEntry heap fib r")
      case True
      then obtain p where p: "getNodeIf fib (toFibPrefix r) = Some p"
        and same: "toFibNextHop (rib_forwardInfo r) = Inr (getForwardInfo (heap ! p))"
        by (auto simp: unchangedEntry_def split: option.splits)
      from validFib_lookup[OF valid p] have pl: "p < length heap" .
      with True l p same show ?thesis
        by (auto simp: getNodeIf_def heap' nth_append)
    next
      case False
      with l f show ?thesis by (auto simp: getNodeIf_def getForwardInfo_def)
    qed
  qed
  have absent: "getNodeIf updatedFib (toFibPrefix r) = None"
    if r: "r \<in> snd ` set rib" "\<not> rib_resolved r" for r
    using wellFormedRib_unresolved[OF wf r] unfolding keys[symmetric] getNodeIf_def
    by (simp add: map_of_eq_None_iff)
  from len keys found absent show ?thesis
    unfolding Inr result by (simp add: res)
qed


text \<open>
  Take a resolved route of the RIB whose prefix has a route in the prior FIB. When that
  route has the class id and the projected forward info of the RIB route, it is untouched
  and any new FIB holds the same pointer under the prefix. Otherwise a new FIB is produced
  and holds under the prefix a pointer that is no address of the heap before the call;
  the route there is the clone of the prior route after \<^verbatim>\<open>setResolved\<close> with the new forward
  info, \<^verbatim>\<open>setConnected\<close> when the RIB route is connected, and \<^verbatim>\<open>updateClassID\<close>; its prefix
  and its clients' next hops are the prior route's.
\<close>

lemma prior_route_reused_or_rebuilt:
  assumes wf: "wellFormedRib rib" and valid: "validFib heap fib"
    and call: "createUpdatedFib rib fib heap = Inr (heap', res)"
    and r: "r \<in> snd ` set rib" "rib_resolved r"
    and prior: "getNodeIf fib (toFibPrefix r) = Some p"
  shows "\<exists>f. toFibNextHop (rib_forwardInfo r) = Inr f \<and>
     (if getClassID (heap ! p) = rib_classID r \<and> f = getForwardInfo (heap ! p)
      then heap' ! p = heap ! p \<and>
           (\<forall>newFib. res = Some newFib \<longrightarrow> getNodeIf newFib (toFibPrefix r) = Some p)
      else \<exists>newFib p'. res = Some newFib \<and> getNodeIf newFib (toFibPrefix r) = Some p' \<and>
             length heap \<le> p' \<and> p' < length heap' \<and>
             heap' ! p' = updateClassID (rib_classID r)
                            ((if rib_connected r then setConnected else (\<lambda>route. route))
                               (setResolved f (clone (heap ! p)))) \<and>
             prefix (heap' ! p') = prefix (heap ! p) \<and>
             nexthopsmulti (heap' ! p') = nexthopsmulti (heap ! p))"
proof -
  from call obtain updatedFib updated where
    run: "updateEntries fib rib (heap, [], False) = Inr (heap', updatedFib, updated)" and
    res: "res = (if deletedRoute rib heap' fib \<or> updated then Some updatedFib else None)"
    by (rule createUpdatedFib_Inr)
  have dist: "distinct (map fst [] @ map toFibPrefix (filter rib_resolved (map snd rib)))"
    using wellFormedRib_resolved_distinct[OF wf] by simp
  from updateEntries_heap[OF run] obtain ext where
    heap': "heap' = heap @ ext" and same: "\<not> updated \<longrightarrow> heap' = heap" by blast
  from validFib_lookup[OF valid prior] have pl: "p < length heap" .
  from updateEntries_lookup[OF run valid dist r] obtain f where
    f: "toFibNextHop (rib_forwardInfo r) = Inr f" and
    l: "if unchangedEntry heap fib r
        then map_of updatedFib (toFibPrefix r) = getNodeIf fib (toFibPrefix r)
        else \<exists>p'. map_of updatedFib (toFibPrefix r) = Some p' \<and> length heap \<le> p' \<and>
               p' < length heap' \<and>
               heap' ! p' = (case getNodeIf fib (toFibPrefix r) of
                        Some p \<Rightarrow> heap ! p | None \<Rightarrow> routeOfPrefix (toFibPrefix r))
                     \<lparr>fwd := f, resolved := True,
                      connected := (rib_connected r \<or>
                         connected (case getNodeIf fib (toFibPrefix r) of
                                      Some p \<Rightarrow> heap ! p | None \<Rightarrow> routeOfPrefix (toFibPrefix r))),
                      classID := rib_classID r\<rparr>"
    by blast
  have un: "unchangedEntry heap fib r =
            (getClassID (heap ! p) = rib_classID r \<and> f = getForwardInfo (heap ! p))"
    by (auto simp: unchangedEntry_def prior f)
  show ?thesis
  proof (cases "unchangedEntry heap fib r")
    case True
    with l prior have "map_of updatedFib (toFibPrefix r) = Some p" by simp
    moreover have "heap' ! p = heap ! p" using pl by (simp add: heap' nth_append)
    ultimately show ?thesis using f True un by (auto simp: res getNodeIf_def)
  next
    case False
    with l prior obtain p' where
      p': "map_of updatedFib (toFibPrefix r) = Some p'" "length heap \<le> p'" "p' < length heap'"
      and node: "heap' ! p' = (heap ! p)\<lparr>fwd := f, resolved := True,
                      connected := (rib_connected r \<or> connected (heap ! p)),
                      classID := rib_classID r\<rparr>"
      by auto
    from p' have "heap' \<noteq> heap" by auto
    with same have "updated" by blast
    then have some: "res = Some updatedFib" by (simp add: res)
    have built: "heap' ! p' = updateClassID (rib_classID r)
                            ((if rib_connected r then setConnected else (\<lambda>route. route))
                               (setResolved f (clone (heap ! p))))"
      by (simp add: node updateClassID_def setConnected_def setResolved_def clone_def)
    have kept: "prefix (heap' ! p') = prefix (heap ! p)"
      "nexthopsmulti (heap' ! p') = nexthopsmulti (heap ! p)"
      by (simp_all add: node)
    have look: "getNodeIf updatedFib (toFibPrefix r) = Some p'"
      using p' by (simp add: getNodeIf_def)
    have "\<exists>newFib p'. res = Some newFib \<and> getNodeIf newFib (toFibPrefix r) = Some p' \<and>
             length heap \<le> p' \<and> p' < length heap' \<and>
             heap' ! p' = updateClassID (rib_classID r)
                            ((if rib_connected r then setConnected else (\<lambda>route. route))
                               (setResolved f (clone (heap ! p)))) \<and>
             prefix (heap' ! p') = prefix (heap ! p) \<and>
             nexthopsmulti (heap' ! p') = nexthopsmulti (heap ! p)"
      using some look p'(2,3) built kept by blast
    moreover from False un
    have "\<not> (getClassID (heap ! p) = rib_classID r \<and> f = getForwardInfo (heap ! p))" by simp
    ultimately show ?thesis using f by (intro exI[of _ f]) (simp only: if_False simp_thms)
  qed
qed


lemma updateEntries_unchanged:
  "noNewOrChangedEntry rib fib h \<Longrightarrow> \<exists>u'. updateEntries fib rib (h, u, b) = Inr (h, u', b)"
proof (induction rib arbitrary: u)
  case Nil
  then show ?case by simp
next
  case (Cons entry rib)
  from Cons.prems have hd: "rib_resolved (snd entry) \<longrightarrow> unchangedEntry h fib (snd entry)"
    and tl: "noNewOrChangedEntry rib fib h"
    by (auto simp: noNewOrChangedEntry_def split: if_splits)
  have "\<exists>u1. updateEntry fib (snd entry) (h, u, b) = Inr (h, u1, b)"
  proof (cases "rib_resolved (snd entry)")
    case False
    then show ?thesis by (simp add: updateEntry_unresolved)
  next
    case True
    with hd show ?thesis
      by (auto simp: updateEntry_resolved unchangedEntry_def getClassID_def getForwardInfo_def
          split: option.splits)
  qed
  then obtain u1 where "updateEntry fib (snd entry) (h, u, b) = Inr (h, u1, b)" by blast
  with Cons.IH[OF tl, of u1] show ?case by simp
qed

lemma deletedRoute_iff:
  "deletedRoute rib h fib =
   (\<exists>fibEntry \<in> set fib. exactMatch rib (network (prefix (h ! snd fibEntry)))
                                       (mask (prefix (h ! snd fibEntry))) = None)"
  by (induction fib) auto

lemma noEntryAbsent_not_deleted:
  "noEntryAbsent rib fib h \<Longrightarrow> \<not> deletedRoute rib h fib"
  unfolding deletedRoute_iff noEntryAbsent_def exactMatch_def list_all_iff list_ex_iff
  by (force simp: map_of_eq_None_iff)

lemma createUpdatedFib_in_sync:
  assumes "noNewOrChangedEntry rib fib h" and "noEntryAbsent rib fib h"
  shows "createUpdatedFib rib fib h = Inr (h, None)"
proof -
  from updateEntries_unchanged[OF assms(1)] obtain u' where
    "updateEntries fib rib (h, [], False) = Inr (h, u', False)" by blast
  with noEntryAbsent_not_deleted[OF assms(2)] show ?thesis
    by (simp add: createUpdatedFib_def)
qed

lemma createUpdatedFib_None:
  assumes "createUpdatedFib rib fib h = Inr (h', None)"
  shows "h' = h"
proof -
  from assms obtain updatedFib updated where
    run: "updateEntries fib rib (h, [], False) = Inr (h', updatedFib, updated)" and
    res: "None = (if deletedRoute rib h' fib \<or> updated then Some updatedFib else None)"
    by (rule createUpdatedFib_Inr)
  from res have "\<not> updated" by (auto split: if_splits)
  with updateEntries_heap[OF run] show ?thesis by blast
qed

lemma createUpdatedFib_Some_in_sync:
  assumes wf: "wellFormedRib rib" and valid: "validFib h fib" and keyed: "keyedFib h fib"
    and call: "createUpdatedFib rib fib h = Inr (h', Some newFib)"
  shows "noNewOrChangedEntry rib newFib h' \<and> noEntryAbsent rib newFib h'"
proof -
  from call obtain updatedFib updated where
    run: "updateEntries fib rib (h, [], False) = Inr (h', updatedFib, updated)" and
    res: "Some newFib = (if deletedRoute rib h' fib \<or> updated then Some updatedFib else None)"
    by (rule createUpdatedFib_Inr)
  from res have nf: "updatedFib = newFib" by (auto split: if_splits)
  have dist: "distinct (map fst [] @ map toFibPrefix (filter rib_resolved (map snd rib)))"
    using wellFormedRib_resolved_distinct[OF wf] by simp
  from updateEntries_keys[OF run dist]
  have keys: "map fst newFib = map toFibPrefix (filter rib_resolved (map snd rib))"
    by (auto simp: nf)
  from updateEntries_heap[OF run] obtain ext where h': "h' = h @ ext" by blast
  have entry: "\<exists>p'. map_of newFib (toFibPrefix r) = Some p' \<and> prefix (h' ! p') = toFibPrefix r \<and>
                  getClassID (h' ! p') = rib_classID r \<and>
                  toFibNextHop (rib_forwardInfo r) = Inr (getForwardInfo (h' ! p'))"
    if r: "r \<in> snd ` set rib" "rib_resolved r" for r
  proof -
    from updateEntries_lookup[OF run valid dist r] obtain f where
      f: "toFibNextHop (rib_forwardInfo r) = Inr f" and
      l: "if unchangedEntry h fib r
          then map_of newFib (toFibPrefix r) = getNodeIf fib (toFibPrefix r)
          else \<exists>p'. map_of newFib (toFibPrefix r) = Some p' \<and> length h \<le> p' \<and>
                 p' < length h' \<and>
                 h' ! p' = (case getNodeIf fib (toFibPrefix r) of
                          Some p \<Rightarrow> h ! p | None \<Rightarrow> routeOfPrefix (toFibPrefix r))
                       \<lparr>fwd := f, resolved := True,
                        connected := (rib_connected r \<or>
                           connected (case getNodeIf fib (toFibPrefix r) of
                                        Some p \<Rightarrow> h ! p | None \<Rightarrow> routeOfPrefix (toFibPrefix r))),
                        classID := rib_classID r\<rparr>"
      unfolding nf by blast
    have key: "prefix (h ! p) = toFibPrefix r" if "getNodeIf fib (toFibPrefix r) = Some p" for p
      using keyed that
      by (auto simp: keyedFib_def getNodeIf_def list_all_iff dest!: map_of_SomeD)
    show ?thesis
    proof (cases "unchangedEntry h fib r")
      case True
      then obtain p where p: "getNodeIf fib (toFibPrefix r) = Some p"
        and c: "getClassID (h ! p) = rib_classID r"
        and same: "toFibNextHop (rib_forwardInfo r) = Inr (getForwardInfo (h ! p))"
        by (auto simp: unchangedEntry_def split: option.splits)
      from validFib_lookup[OF valid p] have "h' ! p = h ! p" by (simp add: h' nth_append)
      with True l p c same key[OF p] show ?thesis by simp
    next
      case False
      with l obtain p' where p': "map_of newFib (toFibPrefix r) = Some p'"
        and node: "h' ! p' = (case getNodeIf fib (toFibPrefix r) of
                          Some p \<Rightarrow> h ! p | None \<Rightarrow> routeOfPrefix (toFibPrefix r))
                       \<lparr>fwd := f, resolved := True,
                        connected := (rib_connected r \<or>
                           connected (case getNodeIf fib (toFibPrefix r) of
                                        Some p \<Rightarrow> h ! p | None \<Rightarrow> routeOfPrefix (toFibPrefix r))),
                        classID := rib_classID r\<rparr>"
        by auto
      have "prefix (h' ! p') = toFibPrefix r"
        unfolding node using key by (auto simp: routeOfPrefix_def split: option.splits)
      with p' f show ?thesis
        by (auto simp: node getClassID_def getForwardInfo_def)
    qed
  qed
  have a: "noNewOrChangedEntry rib newFib h'"
    unfolding noNewOrChangedEntry_def list_all_iff
  proof (intro ballI)
    fix e assume e: "e \<in> set rib"
    show "if rib_resolved (snd e) then unchangedEntry h' newFib (snd e) else True"
    proof (cases "rib_resolved (snd e)")
      case True
      with entry[of "snd e"] e show ?thesis
        by (auto simp: unchangedEntry_def getNodeIf_def)
    qed simp
  qed
  have b: "noEntryAbsent rib newFib h'"
    unfolding noEntryAbsent_def list_all_iff list_ex_iff
  proof (intro ballI)
    fix fe assume fe: "fe \<in> set newFib"
    then have "fst fe \<in> set (map fst newFib)" by auto
    then obtain r where r: "r \<in> set (map snd rib)" "rib_resolved r" "fst fe = toFibPrefix r"
      unfolding keys by auto
    then obtain e where e: "e \<in> set rib" "snd e = r" by auto
    have dk: "distinct (map fst newFib)"
      unfolding keys by (rule wellFormedRib_resolved_distinct[OF wf])
    from fe have "(fst fe, snd fe) \<in> set newFib" by simp
    with dk have "map_of newFib (fst fe) = Some (snd fe)" by (rule map_of_is_SomeI)
    with entry[of r] r e have pre: "prefix (h' ! snd fe) = toFibPrefix r" by force
    from wf e have "fst e = (network (rib_prefix r), mask (rib_prefix r))"
      by (auto simp: wellFormedRib_def list_all_iff)
    with r e pre show "\<exists>entry \<in> set rib. rib_resolved (snd entry) \<and>
                   fst entry = (network (prefix (h' ! snd fe)), mask (prefix (h' ! snd fe)))"
      by (intro bexI[of _ e]) (auto simp: toFibPrefix_def)
  qed
  from a b show ?thesis ..
qed


lemma getFibContainerIf_modify:
  assumes "getFibContainerIf fibMap rid = Some prev" and "\<And>c. vrf (change c) = vrf c"
  shows "getFibContainerIf (map (\<lambda>c. if vrf c = rid then change c else c) fibMap) rid
         = Some (change prev)"
  using assms(1) unfolding getFibContainerIf_def
  by (induction fibMap) (auto simp: assms(2) split: if_splits)

lemma getFibContainerIf_vrf: "getFibContainerIf fibMap rid = Some prev \<Longrightarrow> vrf prev = rid"
  unfolding getFibContainerIf_def by (induction fibMap) (auto split: if_splits)

lemma applyUpdater_unfold:
  assumes "getFibContainerIf (fibs (states store ! state)) (m_vrf u) = Some prev"
    and "createUpdatedFib (m_v4NetworkToRoute u) (fibV4 prev) (routesV4 store) = Inr (h4, n4)"
    and "createUpdatedFib (m_v6NetworkToRoute u) (fibV6 prev) (routesV6 store) = Inr (h6, n6)"
  shows "applyUpdater u store state =
    (if n4 = None \<and> n6 = None then Inr (store\<lparr>routesV4 := h4, routesV6 := h6\<rparr>, state)
     else Inr (store\<lparr>routesV4 := h4, routesV6 := h6,
                    states := states store @
                      [modify (m_vrf u)
                         (\<lambda>c. (case n6 of Some f \<Rightarrow> (\<lambda>c. c\<lparr>fibV6 := f\<rparr>) | None \<Rightarrow> (\<lambda>c. c))
                                ((case n4 of Some f \<Rightarrow> (\<lambda>c. c\<lparr>fibV4 := f\<rparr>) | None \<Rightarrow> (\<lambda>c. c)) c))
                         (states store ! state)]\<rparr>,
               length (states store)))"
  using assms
  by (auto simp: applyUpdater_def Let_def make_shared_def split: option.splits)

text \<open>
  Claim C2. Let the state have a container for the updater's VRF. If for both families the
  RIB introduces no new or changed entry and no FIB entry is absent from the resolved set,
  the updater returns the pointer it was given and the store is as before. And on
  well-formed RIBs and valid, keyed FIBs, applying the updater to its own result returns
  that result: the same pointer, the same store.
\<close>

theorem applyUpdater_noop_idempotent:
  assumes container: "getFibContainerIf (fibs (states store ! state)) (m_vrf u) = Some prev"
  shows "(noNewOrChangedEntry (m_v4NetworkToRoute u) (fibV4 prev) (routesV4 store) \<and>
          noEntryAbsent (m_v4NetworkToRoute u) (fibV4 prev) (routesV4 store) \<and>
          noNewOrChangedEntry (m_v6NetworkToRoute u) (fibV6 prev) (routesV6 store) \<and>
          noEntryAbsent (m_v6NetworkToRoute u) (fibV6 prev) (routesV6 store)
          \<longrightarrow> applyUpdater u store state = Inr (store, state))
       \<and> (wellFormedRib (m_v4NetworkToRoute u) \<and> wellFormedRib (m_v6NetworkToRoute u) \<and>
          validFib (routesV4 store) (fibV4 prev) \<and> keyedFib (routesV4 store) (fibV4 prev) \<and>
          validFib (routesV6 store) (fibV6 prev) \<and> keyedFib (routesV6 store) (fibV6 prev)
          \<longrightarrow> (\<forall>store' state'. applyUpdater u store state = Inr (store', state')
                 \<longrightarrow> applyUpdater u store' state' = Inr (store', state')))"
proof (intro conjI impI allI)
  assume "noNewOrChangedEntry (m_v4NetworkToRoute u) (fibV4 prev) (routesV4 store) \<and>
          noEntryAbsent (m_v4NetworkToRoute u) (fibV4 prev) (routesV4 store) \<and>
          noNewOrChangedEntry (m_v6NetworkToRoute u) (fibV6 prev) (routesV6 store) \<and>
          noEntryAbsent (m_v6NetworkToRoute u) (fibV6 prev) (routesV6 store)"
  then have "createUpdatedFib (m_v4NetworkToRoute u) (fibV4 prev) (routesV4 store)
               = Inr (routesV4 store, None)"
    "createUpdatedFib (m_v6NetworkToRoute u) (fibV6 prev) (routesV6 store)
               = Inr (routesV6 store, None)"
    by (simp_all add: createUpdatedFib_in_sync)
  from applyUpdater_unfold[OF container this] show "applyUpdater u store state = Inr (store, state)"
    by simp
next
  fix store' state'
  assume wf: "wellFormedRib (m_v4NetworkToRoute u) \<and> wellFormedRib (m_v6NetworkToRoute u) \<and>
          validFib (routesV4 store) (fibV4 prev) \<and> keyedFib (routesV4 store) (fibV4 prev) \<and>
          validFib (routesV6 store) (fibV6 prev) \<and> keyedFib (routesV6 store) (fibV6 prev)"
    and first: "applyUpdater u store state = Inr (store', state')"
  from first container obtain h4 n4 where
    c4: "createUpdatedFib (m_v4NetworkToRoute u) (fibV4 prev) (routesV4 store) = Inr (h4, n4)"
    by (auto simp: applyUpdater_def split: sum.splits)
  from first container c4 obtain h6 n6 where
    c6: "createUpdatedFib (m_v6NetworkToRoute u) (fibV6 prev) (routesV6 store) = Inr (h6, n6)"
    by (auto simp: applyUpdater_def split: sum.splits)
  note unfolded = first[unfolded applyUpdater_unfold[OF container c4 c6]]
  show "applyUpdater u store' state' = Inr (store', state')"
  proof (cases "n4 = None \<and> n6 = None")
    case True
    with c4 c6 have "h4 = routesV4 store" "h6 = routesV6 store"
      by (auto dest: createUpdatedFib_None)
    with unfolded True have "store' = store" "state' = state" by auto
    with first show ?thesis by simp
  next
    case False
    let ?w4 = "case n4 of Some f \<Rightarrow> (\<lambda>c. c\<lparr>fibV4 := f\<rparr>) | None \<Rightarrow> (\<lambda>c. c)"
    let ?w6 = "case n6 of Some f \<Rightarrow> (\<lambda>c. c\<lparr>fibV6 := f\<rparr>) | None \<Rightarrow> (\<lambda>c. c)"
    let ?next = "modify (m_vrf u) (\<lambda>c. ?w6 (?w4 c)) (states store ! state)"
    from unfolded False have
      store': "store' = store\<lparr>routesV4 := h4, routesV6 := h6, states := states store @ [?next]\<rparr>"
      and state': "state' = length (states store)" by auto
    have at: "states store' ! state' = ?next" by (simp add: store' state')
    have keep: "vrf (?w6 (?w4 c)) = vrf c" for c by (simp split: option.splits)
    have container': "getFibContainerIf (fibs (states store' ! state')) (m_vrf u)
                      = Some (?w6 (?w4 prev))"
      unfolding at modify_def using getFibContainerIf_modify[OF container keep] by simp
    have f4: "fibV4 (?w6 (?w4 prev)) = (case n4 of Some f \<Rightarrow> f | None \<Rightarrow> fibV4 prev)"
      by (simp split: option.splits)
    have f6: "fibV6 (?w6 (?w4 prev)) = (case n6 of Some f \<Rightarrow> f | None \<Rightarrow> fibV6 prev)"
      by (simp split: option.splits)
    have s4: "createUpdatedFib (m_v4NetworkToRoute u) (fibV4 (?w6 (?w4 prev))) (routesV4 store')
              = Inr (h4, None)"
    proof (cases n4)
      case None
      with c4 have "h4 = routesV4 store" by (auto dest: createUpdatedFib_None)
      with c4 None show ?thesis unfolding f4 by (simp add: store')
    next
      case (Some f)
      from createUpdatedFib_Some_in_sync[OF _ _ _ c4[unfolded Some]] wf
      have "noNewOrChangedEntry (m_v4NetworkToRoute u) f h4 \<and> noEntryAbsent (m_v4NetworkToRoute u) f h4"
        by blast
      then show ?thesis unfolding f4 by (simp add: Some store' createUpdatedFib_in_sync)
    qed
    have s6: "createUpdatedFib (m_v6NetworkToRoute u) (fibV6 (?w6 (?w4 prev))) (routesV6 store')
              = Inr (h6, None)"
    proof (cases n6)
      case None
      with c6 have "h6 = routesV6 store" by (auto dest: createUpdatedFib_None)
      with c6 None show ?thesis unfolding f6 by (simp add: store')
    next
      case (Some f)
      from createUpdatedFib_Some_in_sync[OF _ _ _ c6[unfolded Some]] wf
      have "noNewOrChangedEntry (m_v6NetworkToRoute u) f h6 \<and> noEntryAbsent (m_v6NetworkToRoute u) f h6"
        by blast
      then show ?thesis unfolding f6 by (simp add: Some store' createUpdatedFib_in_sync)
    qed
    from applyUpdater_unfold[OF container' s4 s6] show ?thesis
      by (simp add: store')
  qed
qed

lemmas updater_defs = createUpdatedFib_def updateEntry_def toFibRoute_def toFibNextHop_def
  toFibPrefix_def getNodeIf_def emplace_hint_def make_shared_def clone_def setResolved_def
  setConnected_def updateClassID_def getClassID_def getForwardInfo_def routeOfPrefix_def
  actionEntry_def nextHopsEntry_def exactMatch_def

lemma scenario_call:
  "createUpdatedFib scenarioRibV4 scenarioFibV4 scenarioRoutesV4
   = Inr (scenarioRoutesV4 @ [scenarioRebuiltRoute], Some scenarioNewFibV4)"
  by (simp add: updater_defs scenarioRibV4_def scenarioFibV4_def scenarioRoutesV4_def
      scenarioRebuiltRoute_def scenarioNewFibV4_def Let_def)


lemma scenario_wellFormed: "wellFormedRib scenarioRibV4"
  by (simp add: wellFormedRib_def scenarioRibV4_def)

lemma scenario_valid: "validFib scenarioRoutesV4 scenarioFibV4"
  by (simp add: validFib_def scenarioFibV4_def scenarioRoutesV4_def)

lemma scenario_keyed: "keyedFib scenarioRoutesV4 scenarioFibV4"
  by (simp add: keyedFib_def scenarioFibV4_def scenarioRoutesV4_def)

lemma createUpdatedFib_exact_scenario:
  "wellFormedRib scenarioRibV4 \<and> validFib scenarioRoutesV4 scenarioFibV4 \<and>
   createUpdatedFib scenarioRibV4 scenarioFibV4 scenarioRoutesV4
     = Inr (scenarioRoutesV4 @ [scenarioRebuiltRoute], Some scenarioNewFibV4) \<and>
   length scenarioNewFibV4 = length (filter rib_resolved (map snd scenarioRibV4)) \<and>
   map fst scenarioNewFibV4 = map toFibPrefix (filter rib_resolved (map snd scenarioRibV4)) \<and>
   length scenarioNewFibV4 = 2 \<and>
   getNodeIf scenarioNewFibV4 \<lparr>network = 3325256704, mask = 24\<rparr> = None"
proof -
  have two: "length scenarioNewFibV4 = 2"
    and gone: "getNodeIf scenarioNewFibV4 \<lparr>network = 3325256704, mask = 24\<rparr> = None"
    by (simp_all add: scenarioNewFibV4_def getNodeIf_def)
  from createUpdatedFib_exact[OF scenario_wellFormed scenario_valid]
  have "length scenarioNewFibV4 = length (filter rib_resolved (map snd scenarioRibV4)) \<and>
        map fst scenarioNewFibV4 = map toFibPrefix (filter rib_resolved (map snd scenarioRibV4))"
    unfolding scenario_call by simp
  with scenario_wellFormed scenario_valid scenario_call two gone show ?thesis by blast
qed

text \<open>
  Claim C1. The FIB of a VRF after \<^verbatim>\<open>createUpdatedFib\<close> should hold exactly the resolved
  routes of the RIB: as many entries as resolved routes, and no unresolved route. The
  function builds that FIB in \<^verbatim>\<open>updatedFib\<close> and asserts its size, but returns it only when
  \<^verbatim>\<open>updated\<close> is set, and \<^verbatim>\<open>updated\<close> misses a route of the prior FIB that is still in the
  RIB and no longer resolved: the first loop skips it, the second finds its prefix by
  \<^verbatim>\<open>exactMatch\<close>. With nothing else changed the call returns a null pointer,
  \<^verbatim>\<open>operator()\<close> returns the state it was given, and the FIB keeps 192.0.2.0/24, two
  entries for one resolved route.
\<close>

theorem unresolved_route_stays_in_fib:
  "wellFormedRib scenarioStaleRibV4
   \<and> validFib scenarioRoutesV4 scenarioFibV4 \<and> keyedFib scenarioRoutesV4 scenarioFibV4
   \<and> createUpdatedFib scenarioStaleRibV4 scenarioFibV4 scenarioRoutesV4
       = Inr (scenarioRoutesV4, None)
   \<and> applyUpdater scenarioStaleUpdater scenarioStore 0 = Inr (scenarioStore, 0)
   \<and> map_option (\<lambda>c. map fst (fibV4 c)) (getFibContainerIf (fibs (states scenarioStore ! 0)) 0)
       = Some [\<lparr>network = 167772160, mask = 8\<rparr>, \<lparr>network = 3221225984, mask = 24\<rparr>]
   \<and> map toFibPrefix (filter rib_resolved (map snd scenarioStaleRibV4))
       = [\<lparr>network = 167772160, mask = 8\<rparr>]"
proof -
  have call: "createUpdatedFib scenarioStaleRibV4 scenarioFibV4 scenarioRoutesV4
       = Inr (scenarioRoutesV4, None)"
    by (simp add: updater_defs scenarioStaleRibV4_def scenarioFibV4_def scenarioRoutesV4_def
        Let_def)
  have empty: "createUpdatedFib [] [] []
       = Inr ([], None :: IPAddressV6 ForwardingInformationBase option)"
    by (simp add: createUpdatedFib_def)
  have op: "applyUpdater scenarioStaleUpdater scenarioStore 0 = Inr (scenarioStore, 0)"
    by (simp add: applyUpdater_def getFibContainerIf_def scenarioStaleUpdater_def
        scenarioStore_def scenarioState_def call empty)
  have rest: "wellFormedRib scenarioStaleRibV4"
    "map_option (\<lambda>c. map fst (fibV4 c)) (getFibContainerIf (fibs (states scenarioStore ! 0)) 0)
       = Some [\<lparr>network = 167772160, mask = 8\<rparr>, \<lparr>network = 3221225984, mask = 24\<rparr>]"
    "map toFibPrefix (filter rib_resolved (map snd scenarioStaleRibV4))
       = [\<lparr>network = 167772160, mask = 8\<rparr>]"
    by (simp_all add: wellFormedRib_def scenarioStaleRibV4_def scenarioStore_def
        scenarioState_def scenarioFibV4_def toFibPrefix_def getFibContainerIf_def)
  from call op rest scenario_valid scenario_keyed show ?thesis by blast
qed

lemma prior_route_reused_or_rebuilt_scenario:
  "wellFormedRib scenarioRibV4 \<and> validFib scenarioRoutesV4 scenarioFibV4 \<and>
   createUpdatedFib scenarioRibV4 scenarioFibV4 scenarioRoutesV4
     = Inr (scenarioRoutesV4 @ [scenarioRebuiltRoute], Some scenarioNewFibV4) \<and>
   getNodeIf scenarioFibV4 \<lparr>network = 167772160, mask = 8\<rparr> = Some 0 \<and>
   getNodeIf scenarioNewFibV4 \<lparr>network = 167772160, mask = 8\<rparr> = Some 0 \<and>
   getNodeIf scenarioFibV4 \<lparr>network = 3221225984, mask = 24\<rparr> = Some 1 \<and>
   (\<exists>p'. getNodeIf scenarioNewFibV4 \<lparr>network = 3221225984, mask = 24\<rparr> = Some p' \<and>
         length scenarioRoutesV4 \<le> p' \<and>
         prefix ((scenarioRoutesV4 @ [scenarioRebuiltRoute]) ! p') = prefix (scenarioRoutesV4 ! 1) \<and>
         nexthopsmulti ((scenarioRoutesV4 @ [scenarioRebuiltRoute]) ! p')
           = nexthopsmulti (scenarioRoutesV4 ! 1))"
proof -
  let ?drop = "snd (scenarioRibV4 ! 0)" and ?via = "snd (scenarioRibV4 ! 1)"
  have in_rib: "?drop \<in> snd ` set scenarioRibV4" "?via \<in> snd ` set scenarioRibV4"
    by (simp_all add: scenarioRibV4_def)
  have res: "rib_resolved ?drop" "rib_resolved ?via"
    by (simp_all add: scenarioRibV4_def)
  have pre: "toFibPrefix ?drop = \<lparr>network = 167772160, mask = 8\<rparr>"
    "toFibPrefix ?via = \<lparr>network = 3221225984, mask = 24\<rparr>"
    by (simp_all add: scenarioRibV4_def toFibPrefix_def)
  have prior: "getNodeIf scenarioFibV4 (toFibPrefix ?drop) = Some 0"
    "getNodeIf scenarioFibV4 (toFibPrefix ?via) = Some 1"
    unfolding pre by (simp_all add: scenarioFibV4_def getNodeIf_def)
  have fd: "toFibNextHop (rib_forwardInfo ?drop) = Inr (getForwardInfo (scenarioRoutesV4 ! 0))"
    "getClassID (scenarioRoutesV4 ! 0) = rib_classID ?drop"
    by (simp_all add: scenarioRibV4_def scenarioRoutesV4_def toFibNextHop_def actionEntry_def
        getForwardInfo_def getClassID_def)
  have fv: "toFibNextHop (rib_forwardInfo ?via) = Inr (fwd scenarioRebuiltRoute)"
    "fwd scenarioRebuiltRoute \<noteq> getForwardInfo (scenarioRoutesV4 ! 1)"
    by (simp_all add: scenarioRibV4_def scenarioRoutesV4_def scenarioRebuiltRoute_def
        toFibNextHop_def nextHopsEntry_def getForwardInfo_def)
  from prior_route_reused_or_rebuilt[OF scenario_wellFormed scenario_valid scenario_call
      in_rib(1) res(1) prior(1)] fd
  have a: "getNodeIf scenarioNewFibV4 \<lparr>network = 167772160, mask = 8\<rparr> = Some 0"
    unfolding pre by auto
  from prior_route_reused_or_rebuilt[OF scenario_wellFormed scenario_valid scenario_call
      in_rib(2) res(2) prior(2)] fv
  have b: "\<exists>p'. getNodeIf scenarioNewFibV4 \<lparr>network = 3221225984, mask = 24\<rparr> = Some p' \<and>
         length scenarioRoutesV4 \<le> p' \<and>
         prefix ((scenarioRoutesV4 @ [scenarioRebuiltRoute]) ! p') = prefix (scenarioRoutesV4 ! 1) \<and>
         nexthopsmulti ((scenarioRoutesV4 @ [scenarioRebuiltRoute]) ! p')
           = nexthopsmulti (scenarioRoutesV4 ! 1)"
    unfolding pre by auto
  from scenario_wellFormed scenario_valid scenario_call prior[unfolded pre] a b
  show ?thesis by blast
qed

text \<open>
  Claim C3. A prior route that differs from the RIB route should be replaced by a clone
  that carries the new forward info, connected flag and class id. Reuse, the clone, the
  forward info and the class id are as claimed (\<open>prior_route_reused_or_rebuilt\<close>), the
  connected flag is not: \<^verbatim>\<open>toFibRoute\<close> calls \<^verbatim>\<open>setConnected\<close> when the RIB route is connected
  and does nothing when it is not, so the clone of a connected route stays connected.
  Here the FIB holds 192.0.2.0/24 as a connected route and the RIB has a static route for
  it that is not connected: the rebuilt route has the new next hop and is still flagged
  connected. Without a prior route the same RIB gives a route that is not.
\<close>

theorem rebuilt_route_keeps_connected:
  "wellFormedRib scenarioStaticRibV4
   \<and> validFib scenarioInterfaceRoutesV4 scenarioInterfaceFibV4
   \<and> keyedFib scenarioInterfaceRoutesV4 scenarioInterfaceFibV4
   \<and> map (\<lambda>entry. rib_connected (snd entry)) scenarioStaticRibV4 = [False]
   \<and> createUpdatedFib scenarioStaticRibV4 scenarioInterfaceFibV4 scenarioInterfaceRoutesV4
       = Inr (scenarioInterfaceRoutesV4 @
                [\<lparr>prefix = \<lparr>network = 3221225984, mask = 24\<rparr>,
                  nexthopsmulti =
                    [(2, \<lparr>action = NEXTHOPS, adminDistance = 0,
                          nextHopSet = {\<lparr>addr = V4 3221225985, intf = 2, weight = 0\<rparr>}\<rparr>)],
                  fwd = \<lparr>action = NEXTHOPS, adminDistance = 1,
                         nextHopSet = {\<lparr>addr = V4 167772161, intf = 1, weight = 1\<rparr>}\<rparr>,
                  resolved = True, connected = True, classID = None\<rparr>],
              Some [(\<lparr>network = 3221225984, mask = 24\<rparr>, 1)])
   \<and> createUpdatedFib scenarioStaticRibV4 [] []
       = Inr ([\<lparr>prefix = \<lparr>network = 3221225984, mask = 24\<rparr>,
                 nexthopsmulti = [],
                 fwd = \<lparr>action = NEXTHOPS, adminDistance = 1,
                        nextHopSet = {\<lparr>addr = V4 167772161, intf = 1, weight = 1\<rparr>}\<rparr>,
                 resolved = True, connected = False, classID = None\<rparr>],
              Some [(\<lparr>network = 3221225984, mask = 24\<rparr>, 0)])"
  by (simp add: updater_defs wellFormedRib_def validFib_def keyedFib_def scenarioStaticRibV4_def
      scenarioInterfaceFibV4_def scenarioInterfaceRoutesV4_def Let_def)

lemma scenario_container:
  "getFibContainerIf (fibs (states scenarioStore ! 0)) (m_vrf scenarioUpdater)
   = Some \<lparr>vrf = 0, fibV4 = scenarioFibV4, fibV6 = []\<rparr>"
  by (simp add: getFibContainerIf_def scenarioStore_def scenarioState_def scenarioUpdater_def)

lemma scenario_next_container:
  "getFibContainerIf (fibs (states scenarioNextStore ! 1)) (m_vrf scenarioUpdater)
   = Some \<lparr>vrf = 0, fibV4 = scenarioNewFibV4, fibV6 = []\<rparr>"
  by (simp add: getFibContainerIf_def scenarioNextStore_def scenarioNextState_def
      scenarioUpdater_def)

lemma scenario_first_application:
  "applyUpdater scenarioUpdater scenarioStore 0 = Inr (scenarioNextStore, 1)"
proof -
  have v6: "createUpdatedFib [] [] [] = Inr ([] :: IPAddressV6 Route list, None)"
    by (simp add: createUpdatedFib_def)
  show ?thesis
    unfolding applyUpdater_def scenario_container
    by (simp add: scenarioUpdater_def scenarioStore_def scenario_call v6 make_shared_def
        modify_def scenarioState_def scenarioNextStore_def scenarioNextState_def)
qed

theorem applyUpdater_noop_idempotent_witness:
  "getFibContainerIf (fibs (states scenarioStore ! 0)) (m_vrf scenarioUpdater)
     = Some \<lparr>vrf = 0, fibV4 = scenarioFibV4, fibV6 = []\<rparr> \<and>
   wellFormedRib (m_v4NetworkToRoute scenarioUpdater) \<and>
   wellFormedRib (m_v6NetworkToRoute scenarioUpdater) \<and>
   validFib (routesV4 scenarioStore) scenarioFibV4 \<and>
   keyedFib (routesV4 scenarioStore) scenarioFibV4 \<and>
   applyUpdater scenarioUpdater scenarioStore 0 = Inr (scenarioNextStore, 1) \<and>
   applyUpdater scenarioUpdater scenarioNextStore 1 = Inr (scenarioNextStore, 1) \<and>
   noNewOrChangedEntry scenarioRibV4 scenarioNewFibV4 (routesV4 scenarioNextStore) \<and>
   noEntryAbsent scenarioRibV4 scenarioNewFibV4 (routesV4 scenarioNextStore)"
proof -
  have wf: "wellFormedRib (m_v4NetworkToRoute scenarioUpdater)"
    "wellFormedRib (m_v6NetworkToRoute scenarioUpdater)"
    using scenario_wellFormed by (simp_all add: scenarioUpdater_def wellFormedRib_def)
  have ok: "validFib (routesV4 scenarioStore) scenarioFibV4"
    "keyedFib (routesV4 scenarioStore) scenarioFibV4"
    using scenario_valid scenario_keyed by (simp_all add: scenarioStore_def)
  have ok6: "validFib (routesV6 scenarioStore) []" "keyedFib (routesV6 scenarioStore) []"
    by (simp_all add: validFib_def keyedFib_def)
  have sync: "noNewOrChangedEntry scenarioRibV4 scenarioNewFibV4 (routesV4 scenarioNextStore)"
    "noEntryAbsent scenarioRibV4 scenarioNewFibV4 (routesV4 scenarioNextStore)"
    by (simp_all add: noNewOrChangedEntry_def noEntryAbsent_def unchangedEntry_def
        scenarioRibV4_def scenarioNewFibV4_def scenarioNextStore_def scenarioRoutesV4_def
        scenarioRebuiltRoute_def getNodeIf_def toFibPrefix_def toFibNextHop_def
        actionEntry_def nextHopsEntry_def getClassID_def getForwardInfo_def)
  have sync6: "noNewOrChangedEntry [] [] (routesV6 scenarioNextStore)"
    "noEntryAbsent [] [] (routesV6 scenarioNextStore)"
    by (simp_all add: noNewOrChangedEntry_def noEntryAbsent_def)
  from applyUpdater_noop_idempotent[OF scenario_container] wf ok ok6 scenario_first_application
  have twice: "applyUpdater scenarioUpdater scenarioNextStore 1 = Inr (scenarioNextStore, 1)"
    by simp
  from applyUpdater_noop_idempotent[OF scenario_next_container] sync sync6
  have "applyUpdater scenarioUpdater scenarioNextStore 1 = Inr (scenarioNextStore, 1)"
    by (simp add: scenarioUpdater_def)
  with scenario_container wf ok scenario_first_application sync show ?thesis by blast
qed

section \<open>Properties of the route walkers\<close>

lemma forEach_append:
  "forEach body (xs @ ys) s =
   (case forEach body xs s of Inl err \<Rightarrow> Inl err | Inr s' \<Rightarrow> forEach body ys s')"
  by (induction xs arbitrary: s) (auto split: sum.splits)

lemma forEach_single: "forEach body [x] s = body x s"
  by (simp split: sum.splits)

lemma forEach_concat_map:
  "forEach body (concat (map g ks)) s = forEach (\<lambda>k. forEach body (g k)) ks s"
  by (induction ks arbitrary: s) (auto simp: forEach_append split: sum.splits)

lemma forEach_map: "forEach body (map g xs) s = forEach (\<lambda>x. body (g x)) xs s"
  by (induction xs arbitrary: s) (auto split: sum.splits)

lemma forEach_map_fun: "forEach body (map g xs) = forEach (\<lambda>x. body (g x)) xs"
  by (rule ext) (rule forEach_map)

lemma forEach_cong:
  "(\<And>x s. x \<in> set xs \<Longrightarrow> f x s = g x s) \<Longrightarrow> forEach f xs s = forEach g xs s"
  by (induction xs arbitrary: s) (auto split: sum.splits)

lemma strictOrder_irrefl: "strictOrder lt \<Longrightarrow> \<not> lt a a"
  by (simp add: strictOrder_def)

lemma strictOrder_trans: "strictOrder lt \<Longrightarrow> lt a b \<Longrightarrow> lt b c \<Longrightarrow> lt a c"
  unfolding strictOrder_def by blast

lemma strictOrder_total: "strictOrder lt \<Longrightarrow> \<not> lt a b \<Longrightarrow> \<not> lt b a \<Longrightarrow> a = b"
  unfolding strictOrder_def by blast

lemma sorted_head_fresh:
  "strictOrder lt \<Longrightarrow> sorted_wrt lt (k # ks) \<Longrightarrow> k \<notin> set ks"
  by (auto dest: strictOrder_irrefl)

lemma sorted_below_fresh:
  "strictOrder lt \<Longrightarrow> lt k k' \<Longrightarrow> sorted_wrt lt (k' # ks) \<Longrightarrow> k \<notin> set (k' # ks)"
  by (auto dest: strictOrder_irrefl strictOrder_trans)

lemma set_mergeKeys:
  "strictOrder lt \<Longrightarrow> set (mergeKeys lt xs ys) = set xs \<union> set ys"
  by (induction lt xs ys rule: mergeKeys.induct) (auto dest: strictOrder_total)

lemma sorted_mergeKeys:
  "strictOrder lt \<Longrightarrow> sorted_wrt lt xs \<Longrightarrow> sorted_wrt lt ys \<Longrightarrow>
   sorted_wrt lt (mergeKeys lt xs ys)"
proof (induction lt xs ys rule: mergeKeys.induct)
  case (3 lt x xs y ys)
  show ?case
  proof (cases "lt x y")
    case True
    with 3 have "sorted_wrt lt (mergeKeys lt xs (y # ys))" by simp
    moreover have "\<forall>k \<in> set (mergeKeys lt xs (y # ys)). lt x k"
      using 3 True by (auto simp: set_mergeKeys dest: strictOrder_trans)
    ultimately show ?thesis using True by simp
  next
    case False
    show ?thesis
    proof (cases "lt y x")
      case True
      with 3 False have "sorted_wrt lt (mergeKeys lt (x # xs) ys)" by simp
      moreover have "\<forall>k \<in> set (mergeKeys lt (x # xs) ys). lt y k"
        using 3 True by (auto simp: set_mergeKeys dest: strictOrder_trans)
      ultimately show ?thesis using True False by simp
    next
      case ny: False
      with 3 False have eq: "x = y" by (auto dest: strictOrder_total)
      from 3 False ny have "sorted_wrt lt (mergeKeys lt xs ys)" by simp
      moreover have "\<forall>k \<in> set (mergeKeys lt xs ys). lt x k"
        using 3 eq by (auto simp: set_mergeKeys)
      ultimately show ?thesis using False ny by simp
    qed
  qed
qed simp_all

lemma distinct_sorted: "strictOrder lt \<Longrightarrow> sorted_wrt lt ks \<Longrightarrow> distinct ks"
  by (induction ks) (auto dest: strictOrder_irrefl)

lemma distinct_mergeKeys:
  "strictOrder lt \<Longrightarrow> sorted_wrt lt xs \<Longrightarrow> sorted_wrt lt ys \<Longrightarrow>
   distinct (mergeKeys lt xs ys)"
  by (blast intro: distinct_sorted sorted_mergeKeys)


lemma map_of_absent: "k \<notin> set (map fst nodes) \<Longrightarrow> map_of nodes k = None"
  by (simp add: map_of_eq_None_iff)

lemma nodeMapDelta_left:
  "nodeMapDelta lt xs [] = map (\<lambda>x. \<lparr>getOld = Some (snd x), getNew = None\<rparr>) xs"
  by (induction xs) auto

lemma nodeMapDelta_right:
  "nodeMapDelta lt [] ys = map (\<lambda>y. \<lparr>getOld = None, getNew = Some (snd y)\<rparr>) ys"
  by (induction ys) auto

lemma merge_left_only:
  assumes "distinct (map fst zs)"
  shows "concat (map (keyDelta zs []) (map fst zs))
         = map (\<lambda>z. \<lparr>getOld = Some (snd z), getNew = None\<rparr>) zs"
proof -
  have "map_of zs (fst z) = Some (snd z)" if "z \<in> set zs" for z
    using assms that by (intro map_of_is_SomeI) simp_all
  then have "map (keyDelta zs []) (map fst zs)
           = map (\<lambda>z. [\<lparr>getOld = Some (snd z), getNew = None\<rparr>]) zs"
    by (simp add: comp_def keyDelta_def cong: map_cong)
  then show ?thesis by (simp only: concat_map_singleton)
qed

lemma merge_right_only:
  assumes "distinct (map fst zs)"
  shows "concat (map (keyDelta [] zs) (map fst zs))
         = map (\<lambda>z. \<lparr>getOld = None, getNew = Some (snd z)\<rparr>) zs"
proof -
  have "map_of zs (fst z) = Some (snd z)" if "z \<in> set zs" for z
    using assms that by (intro map_of_is_SomeI) simp_all
  then have "map (keyDelta [] zs) (map fst zs)
           = map (\<lambda>z. [\<lparr>getOld = None, getNew = Some (snd z)\<rparr>]) zs"
    by (simp add: comp_def keyDelta_def cong: map_cong)
  then show ?thesis by (simp only: concat_map_singleton)
qed

lemma mergeKeys_Nil_right: "mergeKeys lt xs [] = xs"
  by (cases xs) simp_all

lemma keyDelta_skip_old:
  "k \<noteq> fst x \<Longrightarrow> keyDelta (x # xs) ys k = keyDelta xs ys k"
  by (simp add: keyDelta_def)

lemma keyDelta_skip_new:
  "k \<noteq> fst y \<Longrightarrow> keyDelta xs (y # ys) k = keyDelta xs ys k"
  by (simp add: keyDelta_def)

lemma keyDelta_tail:
  assumes "k0 \<notin> set ks" and "\<And>k. k \<noteq> k0 \<Longrightarrow> f k = g k"
  shows "map f ks = map g ks"
  by (intro map_cong refl assms(2)) (use assms(1) in auto)

lemma nodeMapDelta_merge:
  "strictOrder lt \<Longrightarrow> orderedMap lt xs \<Longrightarrow> orderedMap lt ys \<Longrightarrow>
   nodeMapDelta lt xs ys = concat (map (keyDelta xs ys) (mergeKeys lt (map fst xs) (map fst ys)))"
proof (induction lt xs ys rule: nodeMapDelta.induct)
  case (1 lt)
  then show ?case by simp
next
  case (2 lt x xs)
  have "distinct (map fst (x # xs))"
    using "2.prems"(1) "2.prems"(2)[unfolded orderedMap_def] by (rule distinct_sorted)
  from merge_left_only[OF this] show ?case
    unfolding nodeMapDelta_left by (simp only: mergeKeys_Nil_right list.map)
next
  case (3 lt y ys)
  have "distinct (map fst (y # ys))"
    using "3.prems"(1) "3.prems"(3)[unfolded orderedMap_def] by (rule distinct_sorted)
  from merge_right_only[OF this] show ?case
    unfolding nodeMapDelta_right by (simp only: mergeKeys.simps list.map)
next
  case (4 lt x xs y ys)
  note ord = "4.prems"(1)
  from "4.prems" have sx: "sorted_wrt lt (fst x # map fst xs)"
    and sy: "sorted_wrt lt (fst y # map fst ys)"
    by (simp_all add: orderedMap_def)
  have ox: "orderedMap lt xs" and oy: "orderedMap lt ys"
    using sx sy by (simp_all add: orderedMap_def)
  have fx: "fst x \<notin> set (map fst xs)" by (rule sorted_head_fresh[OF ord sx])
  have fy: "fst y \<notin> set (map fst ys)" by (rule sorted_head_fresh[OF ord sy])
  have split: "concat (map f (k # ks)) = f k @ concat (map f ks)"
    for f :: "'a \<Rightarrow> 'b DeltaValue list" and k ks
    by simp
  show ?case
  proof (cases "lt (fst x) (fst y)")
    case True
    have nin: "fst x \<notin> set (map fst (y # ys))"
      using sorted_below_fresh[OF ord True sy] by simp
    let ?M = "mergeKeys lt (map fst xs) (map fst (y # ys))"
    have ih: "nodeMapDelta lt xs (y # ys) = concat (map (keyDelta xs (y # ys)) ?M)"
      using "4.IH"(1)[OF True ord ox "4.prems"(3)] .
    have keys: "fst x \<notin> set ?M"
      using fx nin by (simp only: set_mergeKeys[OF ord] Un_iff) simp
    have tail: "map (keyDelta (x # xs) (y # ys)) ?M = map (keyDelta xs (y # ys)) ?M"
      using keys by (rule keyDelta_tail) (rule keyDelta_skip_old)
    have hd: "keyDelta (x # xs) (y # ys) (fst x) = [\<lparr>getOld = Some (snd x), getNew = None\<rparr>]"
      using map_of_absent[OF nin] by (simp add: keyDelta_def)
    have m: "mergeKeys lt (map fst (x # xs)) (map fst (y # ys)) = fst x # ?M"
      using True by simp
    have l: "nodeMapDelta lt (x # xs) (y # ys)
             = [\<lparr>getOld = Some (snd x), getNew = None\<rparr>] @ nodeMapDelta lt xs (y # ys)"
      using True by simp
    show ?thesis by (simp only: l m split hd tail ih)
  next
    case False
    show ?thesis
    proof (cases "lt (fst y) (fst x)")
      case True
      have nin: "fst y \<notin> set (map fst (x # xs))"
        using sorted_below_fresh[OF ord True sx] by simp
      let ?M = "mergeKeys lt (map fst (x # xs)) (map fst ys)"
      have ih: "nodeMapDelta lt (x # xs) ys = concat (map (keyDelta (x # xs) ys) ?M)"
        using "4.IH"(2)[OF False True ord "4.prems"(2) oy] .
      have keys: "fst y \<notin> set ?M"
        using fy nin by (simp only: set_mergeKeys[OF ord] Un_iff) simp
      have tail: "map (keyDelta (x # xs) (y # ys)) ?M = map (keyDelta (x # xs) ys) ?M"
        using keys by (rule keyDelta_tail) (rule keyDelta_skip_new)
      have hd: "keyDelta (x # xs) (y # ys) (fst y) = [\<lparr>getOld = None, getNew = Some (snd y)\<rparr>]"
        using map_of_absent[OF nin] by (simp add: keyDelta_def)
      have m: "mergeKeys lt (map fst (x # xs)) (map fst (y # ys)) = fst y # ?M"
        using False True by simp
      have l: "nodeMapDelta lt (x # xs) (y # ys)
               = [\<lparr>getOld = None, getNew = Some (snd y)\<rparr>] @ nodeMapDelta lt (x # xs) ys"
        using False True by simp
      show ?thesis by (simp only: l m split hd tail ih)
    next
      case ny: False
      from strictOrder_total[OF ord False ny] have eq: "fst x = fst y" .
      let ?M = "mergeKeys lt (map fst xs) (map fst ys)"
      have keys: "fst x \<notin> set ?M"
        using fx fy eq by (simp only: set_mergeKeys[OF ord] Un_iff) simp
      have "map (keyDelta (x # xs) (y # ys)) ?M = map (keyDelta xs (y # ys)) ?M"
        using keys by (rule keyDelta_tail) (rule keyDelta_skip_old)
      also have "\<dots> = map (keyDelta xs ys) ?M"
        using keys[unfolded eq] by (rule keyDelta_tail) (rule keyDelta_skip_new)
      finally have tail: "map (keyDelta (x # xs) (y # ys)) ?M = map (keyDelta xs ys) ?M" .
      have m: "mergeKeys lt (map fst (x # xs)) (map fst (y # ys)) = fst x # ?M"
        using False ny by simp
      have ih: "nodeMapDelta lt xs ys = concat (map (keyDelta xs ys) ?M)"
      proof (cases "snd x = snd y")
        case True
        from "4.IH"(3)[OF False ny True ord ox oy] show ?thesis .
      next
        case diff: False
        from "4.IH"(4)[OF False ny diff ord ox oy] show ?thesis .
      qed
      have hd: "keyDelta (x # xs) (y # ys) (fst x)
                = (if snd x = snd y then []
                   else [\<lparr>getOld = Some (snd x), getNew = Some (snd y)\<rparr>])"
        using eq by (simp add: keyDelta_def)
      have l: "nodeMapDelta lt (x # xs) (y # ys)
               = (if snd x = snd y then []
                  else [\<lparr>getOld = Some (snd x), getNew = Some (snd y)\<rparr>]) @ nodeMapDelta lt xs ys"
        using False ny by simp
      show ?thesis by (simp only: l m split hd tail ih)
    qed
  qed
qed


lemma strictOrder_nat: "strictOrder ((<) :: nat \<Rightarrow> nat \<Rightarrow> bool)"
  by (auto simp: strictOrder_def)

lemma map_of_vrf: "map_of (map (\<lambda>c. (vrf c, c)) cs) rid = getFibContainerIf cs rid"
  by (induction cs) (auto simp: getFibContainerIf_def)

lemma getFibContainerIf_Some:
  "getFibContainerIf cs rid = Some c \<Longrightarrow> c \<in> set cs \<and> vrf c = rid"
  unfolding getFibContainerIf_def by (induction cs) (auto split: if_splits)

lemma processRoutesDelta_keyDelta:
  "processRoutesDelta changedFn addedFn removedFn rid (keyDelta olds news k) s
   = prefixCallback changedFn addedFn removedFn rid (map_of olds k) (map_of news k) s"
  by (simp add: processRoutesDelta_def keyDelta_def prefixCallback_def Let_def split: sum.splits)

lemma processRoutesDelta_merge:
  assumes "strictOrder lt" "orderedMap lt olds" "orderedMap lt news"
  shows "processRoutesDelta changedFn addedFn removedFn rid (nodeMapDelta lt olds news) s
   = forEach (\<lambda>k. prefixCallback changedFn addedFn removedFn rid (map_of olds k) (map_of news k))
       (mergeKeys lt (map fst olds) (map fst news)) s"
proof -
  have "processRoutesDelta changedFn addedFn removedFn rid (nodeMapDelta lt olds news) s
      = forEach (\<lambda>k. processRoutesDelta changedFn addedFn removedFn rid (keyDelta olds news k))
          (mergeKeys lt (map fst olds) (map fst news)) s"
    unfolding nodeMapDelta_merge[OF assms] processRoutesDelta_def
    by (rule forEach_concat_map)
  also have "\<dots> = forEach (\<lambda>k. prefixCallback changedFn addedFn removedFn rid
                          (map_of olds k) (map_of news k))
                  (mergeKeys lt (map fst olds) (map fst news)) s"
    by (rule forEach_cong) (rule processRoutesDelta_keyDelta)
  finally show ?thesis .
qed

lemma fibContainerDeltaStep_keyDelta:
  assumes ord: "strictOrder lt"
    and co: "co = getFibContainerIf oldFibs rid" and cn: "cn = getFibContainerIf newFibs rid"
    and oldOrdered: "\<forall>c \<in> set oldFibs. orderedMap lt (getFib c)"
    and newOrdered: "\<forall>c \<in> set newFibs. orderedMap lt (getFib c)"
  shows "forEach (fibContainerDeltaStep lt getFib changedFn addedFn removedFn)
           (if co = cn then [] else [\<lparr>getOld = co, getNew = cn\<rparr>]) s
         = vrfCallbacks lt getFib changedFn addedFn removedFn co cn rid s"
proof (cases "co = cn")
  case True
  then show ?thesis by (simp add: vrfCallbacks_def)
next
  case False
  have oo: "orderedMap lt (nodesOf getFib co)"
    using oldOrdered co[symmetric] getFibContainerIf_Some[of oldFibs rid]
    by (cases co) (auto simp: nodesOf_def orderedMap_def)
  show ?thesis
  proof (cases cn)
    case None
    with False obtain oc where oc: "co = Some oc" by (cases co) auto
    with co have "vrf oc = rid" using getFibContainerIf_Some[of oldFibs rid oc] by simp
    with False None oc show ?thesis
      by (simp add: vrfCallbacks_def fibContainerDeltaStep_def removeAll_def nodesOf_def
          split: sum.splits)
  next
    case (Some nc)
    with cn have nc: "nc \<in> set newFibs" "vrf nc = rid"
      using getFibContainerIf_Some[of newFibs rid nc] by simp_all
    with newOrdered have on: "orderedMap lt (getFib nc)" by blast
    have "fibContainerDeltaStep lt getFib changedFn addedFn removedFn \<lparr>getOld = co, getNew = cn\<rparr> s
        = processRoutesDelta changedFn addedFn removedFn rid
            (nodeMapDelta lt (nodesOf getFib co) (getFib nc)) s"
      by (simp add: fibContainerDeltaStep_def Some nc getFibDelta_def nodesOf_def)
    also have "\<dots> = forEach (\<lambda>k. prefixCallback changedFn addedFn removedFn rid
                          (map_of (nodesOf getFib co) k) (map_of (getFib nc) k))
                  (mergeKeys lt (map fst (nodesOf getFib co)) (map fst (getFib nc))) s"
      by (rule processRoutesDelta_merge[OF ord oo on])
    finally show ?thesis using False Some
      by (simp add: vrfCallbacks_def split: sum.splits)
  qed
qed

text \<open>
  Claim C4. In standalone mode, with the FIB map and the FIBs in the order of their keys,
  \<^verbatim>\<open>forEachChangedRoute<AddrT>\<close> walks the VRFs of either state in ascending order, each
  once. For a VRF whose container is the same in both states it calls nothing. For a VRF
  that is in the old state and not in the new one it calls \<^verbatim>\<open>removedFn\<close> once for every
  route of the old FIB. For every other VRF it walks the prefixes of either FIB in
  ascending order, each once (a VRF that is new has an empty old FIB): it calls nothing
  where both FIBs hold the same route, \<^verbatim>\<open>addedFn\<close> where the old route is absent,
  \<^verbatim>\<open>removedFn\<close> where the new route is absent, and \<^verbatim>\<open>changedFn\<close> where both are present. A
  callback that throws ends the walk.
\<close>

theorem forEachChangedRoute_standalone:
  assumes ord: "strictOrder keyLess"
    and oldVrfs: "sorted_wrt (<) (map vrf (fibs (oldState delta)))"
    and newVrfs: "sorted_wrt (<) (map vrf (fibs (newState delta)))"
    and oldOrdered: "\<forall>c \<in> set (fibs (oldState delta)). orderedMap keyLess (getFib c)"
    and newOrdered: "\<forall>c \<in> set (fibs (newState delta)). orderedMap keyLess (getFib c)"
  shows "forEachChangedRoute keyLess getFib getRib True delta changedFn addedFn removedFn s
         = forEach (\<lambda>rid. vrfCallbacks keyLess getFib changedFn addedFn removedFn
                      (getFibContainerIf (fibs (oldState delta)) rid)
                      (getFibContainerIf (fibs (newState delta)) rid) rid)
             (mergeKeys (<) (map vrf (fibs (oldState delta))) (map vrf (fibs (newState delta)))) s
       \<and> distinct (mergeKeys (<) (map vrf (fibs (oldState delta)))
                               (map vrf (fibs (newState delta))))
       \<and> set (mergeKeys (<) (map vrf (fibs (oldState delta))) (map vrf (fibs (newState delta))))
           = vrf ` set (fibs (oldState delta)) \<union> vrf ` set (fibs (newState delta))
       \<and> (\<forall>rid. distinct (mergeKeys keyLess
                     (map fst (nodesOf getFib (getFibContainerIf (fibs (oldState delta)) rid)))
                     (map fst (nodesOf getFib (getFibContainerIf (fibs (newState delta)) rid))))
              \<and> set (mergeKeys keyLess
                     (map fst (nodesOf getFib (getFibContainerIf (fibs (oldState delta)) rid)))
                     (map fst (nodesOf getFib (getFibContainerIf (fibs (newState delta)) rid))))
                 = fst ` set (nodesOf getFib (getFibContainerIf (fibs (oldState delta)) rid))
                   \<union> fst ` set (nodesOf getFib (getFibContainerIf (fibs (newState delta)) rid)))"
proof (intro conjI allI)
  let ?olds = "map (\<lambda>c. (vrf c, c)) (fibs (oldState delta))"
  let ?news = "map (\<lambda>c. (vrf c, c)) (fibs (newState delta))"
  let ?rids = "mergeKeys (<) (map vrf (fibs (oldState delta))) (map vrf (fibs (newState delta)))"
  have keys: "map fst ?olds = map vrf (fibs (oldState delta))"
    "map fst ?news = map vrf (fibs (newState delta))"
    by (simp_all add: comp_def)
  have oo: "orderedMap (<) ?olds" and on: "orderedMap (<) ?news"
    unfolding orderedMap_def keys using oldVrfs newVrfs by simp_all
  have "getFibsDelta delta = concat (map (keyDelta ?olds ?news) ?rids)"
    unfolding getFibsDelta_def nodeMapDelta_merge[OF strictOrder_nat oo on] keys ..
  then have "forEachChangedRoute keyLess getFib getRib True delta changedFn addedFn removedFn s
      = forEach (\<lambda>rid. forEach (fibContainerDeltaStep keyLess getFib changedFn addedFn removedFn)
                         (keyDelta ?olds ?news rid)) ?rids s"
    by (simp add: forEachChangedRoute_def forEach_concat_map)
  also have "\<dots> = forEach (\<lambda>rid. vrfCallbacks keyLess getFib changedFn addedFn removedFn
                      (getFibContainerIf (fibs (oldState delta)) rid)
                      (getFibContainerIf (fibs (newState delta)) rid) rid) ?rids s"
  proof (rule forEach_cong)
    fix rid s'
    show "forEach (fibContainerDeltaStep keyLess getFib changedFn addedFn removedFn)
            (keyDelta ?olds ?news rid) s'
          = vrfCallbacks keyLess getFib changedFn addedFn removedFn
              (getFibContainerIf (fibs (oldState delta)) rid)
              (getFibContainerIf (fibs (newState delta)) rid) rid s'"
      unfolding keyDelta_def map_of_vrf
      by (rule fibContainerDeltaStep_keyDelta[OF ord refl refl oldOrdered newOrdered])
  qed
  finally show "forEachChangedRoute keyLess getFib getRib True delta changedFn addedFn removedFn s
         = forEach (\<lambda>rid. vrfCallbacks keyLess getFib changedFn addedFn removedFn
                      (getFibContainerIf (fibs (oldState delta)) rid)
                      (getFibContainerIf (fibs (newState delta)) rid) rid) ?rids s" .
  show "distinct ?rids"
    by (rule distinct_mergeKeys[OF strictOrder_nat oldVrfs newVrfs])
  show "set ?rids = vrf ` set (fibs (oldState delta)) \<union> vrf ` set (fibs (newState delta))"
    by (simp add: set_mergeKeys[OF strictOrder_nat])
next
  fix rid
  let ?fo = "nodesOf getFib (getFibContainerIf (fibs (oldState delta)) rid)"
  let ?fn = "nodesOf getFib (getFibContainerIf (fibs (newState delta)) rid)"
  have so: "sorted_wrt keyLess (map fst ?fo)"
    using oldOrdered getFibContainerIf_Some[of "fibs (oldState delta)" rid]
    by (cases "getFibContainerIf (fibs (oldState delta)) rid")
       (auto simp: nodesOf_def orderedMap_def)
  have sn: "sorted_wrt keyLess (map fst ?fn)"
    using newOrdered getFibContainerIf_Some[of "fibs (newState delta)" rid]
    by (cases "getFibContainerIf (fibs (newState delta)) rid")
       (auto simp: nodesOf_def orderedMap_def)
  show "distinct (mergeKeys keyLess (map fst ?fo) (map fst ?fn))"
    by (rule distinct_mergeKeys[OF ord so sn])
  show "set (mergeKeys keyLess (map fst ?fo) (map fst ?fn)) = fst ` set ?fo \<union> fst ` set ?fn"
    by (simp add: set_mergeKeys[OF ord])
qed


lemma strictOrder_prefixLess: "strictOrder (prefixLess :: ('a :: linorder) RoutePrefix \<Rightarrow> _)"
  unfolding strictOrder_def prefixLess_def
  by (intro conjI allI impI) (auto intro: RoutePrefix.equality)

theorem forEachChangedRoute_standalone_witness:
  "strictOrder (prefixLess :: IPAddressV4 RoutePrefix \<Rightarrow> _) \<and>
   sorted_wrt (<) (map vrf (fibs (oldState scenarioDelta))) \<and>
   sorted_wrt (<) (map vrf (fibs (newState scenarioDelta))) \<and>
   list_all (\<lambda>c. orderedMap prefixLess (fibV4 c)) (fibs (oldState scenarioDelta)) \<and>
   list_all (\<lambda>c. orderedMap prefixLess (fibV4 c)) (fibs (newState scenarioDelta)) \<and>
   forEachChangedRoute prefixLess fibV4 ribV4 True scenarioDelta logChanged logAdded logRemoved []
     = Inr [Changed 0 (Some 1) (Some 2), Removed 7 (Some 3), Added 9 (Some 4)]"
proof -
  have so: "sorted_wrt (<) (map vrf (fibs (oldState scenarioDelta)))"
    and sn: "sorted_wrt (<) (map vrf (fibs (newState scenarioDelta)))"
    by (simp_all add: scenarioDelta_def)
  have oo: "\<forall>c \<in> set (fibs (oldState scenarioDelta)). orderedMap prefixLess (fibV4 c)"
    and on: "\<forall>c \<in> set (fibs (newState scenarioDelta)). orderedMap prefixLess (fibV4 c)"
    by (simp_all add: scenarioDelta_def orderedMap_def scenarioFibV4_def scenarioNewFibV4_def
        prefixLess_def)
  from forEachChangedRoute_standalone[OF strictOrder_prefixLess so sn oo on,
      of ribV4 logChanged logAdded logRemoved "[]"]
  have "forEachChangedRoute prefixLess fibV4 ribV4 True scenarioDelta logChanged logAdded logRemoved []
     = forEach (\<lambda>rid. vrfCallbacks prefixLess fibV4 logChanged logAdded logRemoved
                      (getFibContainerIf (fibs (oldState scenarioDelta)) rid)
                      (getFibContainerIf (fibs (newState scenarioDelta)) rid) rid)
             (mergeKeys (<) (map vrf (fibs (oldState scenarioDelta)))
                            (map vrf (fibs (newState scenarioDelta)))) []"
    by blast
  also have "\<dots> = Inr [Changed 0 (Some 1) (Some 2), Removed 7 (Some 3), Added 9 (Some 4)]"
    by (simp add: scenarioDelta_def vrfCallbacks_def prefixCallback_def getFibContainerIf_def
        nodesOf_def scenarioFibV4_def scenarioNewFibV4_def prefixLess_def
        logChanged_def logAdded_def logRemoved_def)
  finally show ?thesis
    using strictOrder_prefixLess so sn oo on by (simp add: list_all_iff)
qed

text \<open>
  Walks with logging callbacks. Two walks over one delta whose callbacks keep a relation
  between their states keep it themselves; a walk with the logging callbacks returns; and
  logging the routes under a tag gives the log of the plain walk, tagged.
\<close>

lemma forEach_sim:
  assumes "\<And>x s s'. x \<in> set xs \<Longrightarrow> R s s' \<Longrightarrow> rel_sum (=) R (body x s) (body' x s')"
    and "R s s'"
  shows "rel_sum (=) R (forEach body xs s) (forEach body' xs s')"
  using assms
proof (induction xs arbitrary: s s')
  case Nil
  then show ?case by simp
next
  case (Cons x xs)
  from Cons.prems have step: "rel_sum (=) R (body x s) (body' x s')" by simp
  show ?case
  proof (cases "body x s")
    case (Inl err)
    with step have "body' x s' = Inl err" by (cases "body' x s'") auto
    with Inl show ?thesis by simp
  next
    case (Inr t)
    with step obtain t' where t': "body' x s' = Inr t'" "R t t'" by (cases "body' x s'") auto
    have "rel_sum (=) R (forEach body xs t) (forEach body' xs t')"
      by (rule Cons.IH) (use Cons.prems(1) t'(2) in auto)
    with Inr t' show ?thesis by simp
  qed
qed

lemma forEach_total:
  assumes "\<And>x s. x \<in> set xs \<Longrightarrow> \<exists>t. body x s = Inr t"
  shows "\<exists>t. forEach body xs s = Inr t"
  using assms
proof (induction xs arbitrary: s)
  case Nil
  then show ?case by simp
next
  case (Cons x xs)
  from Cons.prems obtain t where t: "body x s = Inr t" by auto
  from Cons.IH[of t] Cons.prems obtain u where "forEach body xs t = Inr u" by auto
  with t show ?case by simp
qed

lemma nodeMapDelta_present:
  "d \<in> set (nodeMapDelta keyLess olds news) \<Longrightarrow> getOld d \<noteq> None \<or> getNew d \<noteq> None"
  by (induction keyLess olds news rule: nodeMapDelta.induct) (auto split: if_splits)

lemma forEachChangedRoute_sim:
  assumes c: "\<And>rid ro rn s s'. R s s' \<Longrightarrow>
                rel_sum (=) R (changedFn rid ro rn s) (changedFn' rid ro rn s')"
    and a: "\<And>rid rn s s'. R s s' \<Longrightarrow> rel_sum (=) R (addedFn rid rn s) (addedFn' rid rn s')"
    and r: "\<And>rid ro s s'. R s s' \<Longrightarrow> rel_sum (=) R (removedFn rid ro s) (removedFn' rid ro s')"
    and s: "R s s'"
  shows "rel_sum (=) R
           (forEachChangedRoute keyLess getFib getRib isStandaloneRib delta
              changedFn addedFn removedFn s)
           (forEachChangedRoute keyLess getFib getRib isStandaloneRib delta
              changedFn' addedFn' removedFn' s')"
proof -
  have rem: "rel_sum (=) R (removeAll removedFn rid routes t) (removeAll removedFn' rid routes t')"
    if "R t t'" for rid t t' and routes :: "('k RoutePrefix \<times> ptr) list"
    unfolding removeAll_def by (rule forEach_sim) (use r that in auto)
  have pro: "rel_sum (=) R (processRoutesDelta changedFn addedFn removedFn rid ds t)
                           (processRoutesDelta changedFn' addedFn' removedFn' rid ds t')"
    if "R t t'" for rid ds t t'
    unfolding processRoutesDelta_def by (rule forEach_sim) (use c a r that in \<open>auto simp: Let_def\<close>)
  have fib: "rel_sum (=) R
               (fibContainerDeltaStep keyLess getFib changedFn addedFn removedFn d t)
               (fibContainerDeltaStep keyLess getFib changedFn' addedFn' removedFn' d t')"
    if "R t t'" for d t t'
    using rem[OF that] pro[OF that]
    by (auto simp: fibContainerDeltaStep_def split: option.splits)
  have tab: "rel_sum (=) R
               (routeTableDeltaStep keyLess getRib changedFn addedFn removedFn d t)
               (routeTableDeltaStep keyLess getRib changedFn' addedFn' removedFn' d t')"
    if "R t t'" for d t t'
    using rem[OF that] pro[OF that]
    by (auto simp: routeTableDeltaStep_def split: option.splits)
  show ?thesis
    unfolding forEachChangedRoute_def
    by (cases isStandaloneRib) (auto intro!: forEach_sim fib tab s)
qed

lemma forEachChangedRoute_log_total:
  "\<exists>calls'. forEachChangedRoute keyLess getFib getRib isStandaloneRib delta
              logChanged logAdded logRemoved calls = Inr calls'"
proof -
  have rem: "\<exists>u. removeAll logRemoved rid routes t = Inr u"
    for rid t and routes :: "('k RoutePrefix \<times> ptr) list"
    unfolding removeAll_def by (rule forEach_total) (simp add: logRemoved_def)
  have pro: "\<exists>u. processRoutesDelta logChanged logAdded logRemoved rid ds t = Inr u"
    for rid ds t
    unfolding processRoutesDelta_def
    by (rule forEach_total) (simp add: logChanged_def logAdded_def logRemoved_def Let_def)
  have fib: "\<exists>u. fibContainerDeltaStep keyLess getFib logChanged logAdded logRemoved d t = Inr u"
    if "d \<in> set (getFibsDelta delta)" for d t
    using nodeMapDelta_present[OF that[unfolded getFibsDelta_def]] rem pro
    by (auto simp: fibContainerDeltaStep_def split: option.splits)
  have tab: "\<exists>u. routeTableDeltaStep keyLess getRib logChanged logAdded logRemoved d t = Inr u"
    if "d \<in> set (getRouteTablesDelta delta)" for d t
    using nodeMapDelta_present[OF that[unfolded getRouteTablesDelta_def]] rem pro
    by (auto simp: routeTableDeltaStep_def split: option.splits)
  show ?thesis
    unfolding forEachChangedRoute_def
    by (cases isStandaloneRib) (auto intro!: forEach_total fib tab)
qed

lemma forEachChangedRoute_tagged:
  assumes "forEachChangedRoute keyLess getFib getRib isStandaloneRib delta
             logChanged logAdded logRemoved [] = Inr calls"
  shows "forEachChangedRoute keyLess getFib getRib isStandaloneRib delta
           (\<lambda>rid oldRoute newRoute.
              logChanged rid (map_option tag oldRoute) (map_option tag newRoute))
           (\<lambda>rid newRoute. logAdded rid (map_option tag newRoute))
           (\<lambda>rid oldRoute. logRemoved rid (map_option tag oldRoute)) before
         = Inr (before @ map (map_RouteCall tag) calls)"
proof -
  define R where "R = (\<lambda>s s'. s' = before @ map (map_RouteCall tag) s)"
  have "rel_sum (=) R
          (forEachChangedRoute keyLess getFib getRib isStandaloneRib delta
             logChanged logAdded logRemoved [])
          (forEachChangedRoute keyLess getFib getRib isStandaloneRib delta
             (\<lambda>rid oldRoute newRoute.
                logChanged rid (map_option tag oldRoute) (map_option tag newRoute))
             (\<lambda>rid newRoute. logAdded rid (map_option tag newRoute))
             (\<lambda>rid oldRoute. logRemoved rid (map_option tag oldRoute)) before)"
    by (rule forEachChangedRoute_sim)
       (simp_all add: R_def logChanged_def logAdded_def logRemoved_def)
  with assms show ?thesis
    by (auto simp: R_def elim: rel_sum.cases)
qed

text \<open>
  Claim C9. In standalone mode \<^verbatim>\<open>forAllRoutes\<close> calls \<^verbatim>\<open>func\<close> once for each route of each FIB:
  a callback that logs its calls adds to the log, for every container of the FIB map in
  turn, one entry for each route of its IPv6 FIB followed by one entry for each route of
  its IPv4 FIB, as it does in a state of two VRFs with routes of both families. Any other
  callback is called along the same list, and when it throws the walk ends. The untyped
  \<^verbatim>\<open>forEachChangedRoute\<close> goes the other way round: the walks of the two families return,
  and the log of the untyped walk is the calls of the IPv4 walk followed by the calls of
  the IPv6 walk, as it is for a delta that changes an IPv4 route and removes an IPv6 route.
\<close>

theorem forAllRoutes_standalone:
  "forAllRoutes True state logRoute calls
     = Inr (calls @ concat (map (\<lambda>c. map (\<lambda>route. (vrf c, RouteV6 (snd route))) (fibV6 c) @
                                       map (\<lambda>route. (vrf c, RouteV4 (snd route))) (fibV4 c))
                                 (fibs state)))
   \<and> forAllRoutes True scenarioFamiliesState logRoute []
     = Inr [(0, RouteV6 5), (0, RouteV4 0), (0, RouteV4 1), (9, RouteV6 6), (9, RouteV4 4)]
   \<and> forAllRoutes True state func s
     = forEach (\<lambda>call. func (fst call) (snd call))
         (concat (map (\<lambda>c. map (\<lambda>route. (vrf c, RouteV6 (snd route))) (fibV6 c) @
                           map (\<lambda>route. (vrf c, RouteV4 (snd route))) (fibV4 c))
                      (fibs state))) s
   \<and> (\<exists>callsV4 callsV6.
         forEachChangedRoute lessV4 fibV4 ribV4 isStandaloneRib delta
           logChanged logAdded logRemoved [] = Inr callsV4
       \<and> forEachChangedRoute lessV6 fibV6 ribV6 isStandaloneRib delta
           logChanged logAdded logRemoved [] = Inr callsV6
       \<and> forEachChangedRouteUntyped lessV4 lessV6 isStandaloneRib delta
           logChanged logAdded logRemoved before
         = Inr (before @ map (map_RouteCall RouteV4) callsV4 @ map (map_RouteCall RouteV6) callsV6))
   \<and> forEachChangedRouteUntyped prefixLess prefixLess True scenarioFamiliesDelta
        logChanged logAdded logRemoved []
     = Inr [Changed 0 (Some (RouteV4 0)) (Some (RouteV4 1)), Removed 0 (Some (RouteV6 5))]"
proof (intro conjI)
  have body: "(case forEach (\<lambda>route. func (vrf c) (RouteV6 (snd route))) (fibV6 c) t of
                 Inl err \<Rightarrow> Inl err
               | Inr t' \<Rightarrow> forEach (\<lambda>route. func (vrf c) (RouteV4 (snd route))) (fibV4 c) t')
              = forEach (\<lambda>call. func (fst call) (snd call))
                  (map (\<lambda>route. (vrf c, RouteV6 (snd route))) (fibV6 c) @
                   map (\<lambda>route. (vrf c, RouteV4 (snd route))) (fibV4 c)) t"
    for c t and func :: "RouterID \<Rightarrow> AnyRoute \<Rightarrow> 't \<Rightarrow> error + 't"
    by (simp add: forEach_append forEach_map split: sum.splits)
  have general: "forAllRoutes True state func s
     = forEach (\<lambda>call. func (fst call) (snd call))
         (concat (map (\<lambda>c. map (\<lambda>route. (vrf c, RouteV6 (snd route))) (fibV6 c) @
                           map (\<lambda>route. (vrf c, RouteV4 (snd route))) (fibV4 c))
                      (fibs state))) s"
    for state s and func :: "RouterID \<Rightarrow> AnyRoute \<Rightarrow> 't \<Rightarrow> error + 't"
    by (simp add: forAllRoutes_def forEach_concat_map Let_def body)
  show "forAllRoutes True state func s
     = forEach (\<lambda>call. func (fst call) (snd call))
         (concat (map (\<lambda>c. map (\<lambda>route. (vrf c, RouteV6 (snd route))) (fibV6 c) @
                           map (\<lambda>route. (vrf c, RouteV4 (snd route))) (fibV4 c))
                      (fibs state))) s"
    by (rule general)
  have logged: "forEach (\<lambda>call. logRoute (fst call) (snd call)) xs before = Inr (before @ xs)"
    for xs before
    by (induction xs arbitrary: before) (auto simp: logRoute_def)
  show "forAllRoutes True state logRoute calls
     = Inr (calls @ concat (map (\<lambda>c. map (\<lambda>route. (vrf c, RouteV6 (snd route))) (fibV6 c) @
                                       map (\<lambda>route. (vrf c, RouteV4 (snd route))) (fibV4 c))
                                 (fibs state)))"
    unfolding general logged ..
  show "forAllRoutes True scenarioFamiliesState logRoute []
     = Inr [(0, RouteV6 5), (0, RouteV4 0), (0, RouteV4 1), (9, RouteV6 6), (9, RouteV4 4)]"
    unfolding general logged by (simp add: scenarioFamiliesState_def)
  obtain callsV4 where v4: "forEachChangedRoute lessV4 fibV4 ribV4 isStandaloneRib delta
           logChanged logAdded logRemoved [] = Inr callsV4"
    using forEachChangedRoute_log_total by blast
  obtain callsV6 where v6: "forEachChangedRoute lessV6 fibV6 ribV6 isStandaloneRib delta
           logChanged logAdded logRemoved [] = Inr callsV6"
    using forEachChangedRoute_log_total by blast
  have "forEachChangedRouteUntyped lessV4 lessV6 isStandaloneRib delta
           logChanged logAdded logRemoved before
         = Inr (before @ map (map_RouteCall RouteV4) callsV4 @ map (map_RouteCall RouteV6) callsV6)"
    unfolding forEachChangedRouteUntyped_def
    by (simp add: forEachChangedRoute_tagged[OF v4] forEachChangedRoute_tagged[OF v6])
  with v4 v6 show "\<exists>callsV4 callsV6.
         forEachChangedRoute lessV4 fibV4 ribV4 isStandaloneRib delta
           logChanged logAdded logRemoved [] = Inr callsV4
       \<and> forEachChangedRoute lessV6 fibV6 ribV6 isStandaloneRib delta
           logChanged logAdded logRemoved [] = Inr callsV6
       \<and> forEachChangedRouteUntyped lessV4 lessV6 isStandaloneRib delta
           logChanged logAdded logRemoved before
         = Inr (before @ map (map_RouteCall RouteV4) callsV4 @ map (map_RouteCall RouteV6) callsV6)"
    by blast
  show "forEachChangedRouteUntyped prefixLess prefixLess True scenarioFamiliesDelta
        logChanged logAdded logRemoved []
     = Inr [Changed 0 (Some (RouteV4 0)) (Some (RouteV4 1)), Removed 0 (Some (RouteV6 5))]"
    by (simp add: forEachChangedRouteUntyped_def forEachChangedRoute_def getFibsDelta_def
        fibContainerDeltaStep_def processRoutesDelta_def getFibDelta_def nodesOf_def
        scenarioFamiliesDelta_def prefixLess_def logChanged_def logAdded_def logRemoved_def)
qed

end
